theory Spec2Isabelle
  imports Complex_Main "HOL-Library.Word"
begin

unbundle bit_operations_syntax

section \<open>Data model\<close>

type_synonym u8 = "8 word"

datatype error = IndexOutOfRange | IntOverflow

text \<open>
  The file-level variables of \<^verbatim>\<open>icosa.c\<close>: the braille dot framebuffer \<^verbatim>\<open>fb\<close>, the
  floor classification \<^verbatim>\<open>floor_map\<close> (0 = sky, 1 = dark, 2 = light), the size in text
  cells \<^verbatim>\<open>cw, ch\<close>, the size in sub-pixels \<^verbatim>\<open>pw, ph\<close> and the \<^verbatim>\<open>horizon\<close> row.
  Both buffers are byte arrays; a write or read outside an array is the error
  \<open>IndexOutOfRange\<close> of the model.

  The C \<^verbatim>\<open>int\<close> values are modelled by \<open>int\<close>. A C \<^verbatim>\<open>int\<close> has 32 bits, and a signed
  operation whose result does not fit is undefined in C; \<open>c_int\<close> says that a value fits.
  The rasterizer is modelled twice. \<open>fb_set\<close>, \<open>line_step\<close> and \<open>draw_line\<close> compute on
  the mathematical integers. \<open>fb_set32\<close>, \<open>line_step32\<close> and \<open>draw_line32\<close> are the same
  code with every integer operation checked: they stop with the error \<open>IntOverflow\<close> at
  the first operation whose result is not a C \<^verbatim>\<open>int\<close>, and where they return a state it is
  the state of the first version (\<open>draw_line32_sound\<close>). \<^verbatim>\<open>compute_floor\<close> checks its
  integer operations in the same way.
\<close>

record gstate =
  fb :: "u8 list"
  floor_map :: "u8 list"
  cw :: int
  ch :: int
  pw :: int
  ph :: int
  horizon :: int

definition INT_MAX :: int where
  "INT_MAX = 2147483647"

definition INT_MIN :: int where
  "INT_MIN = - 2147483648"

definition c_int :: "int \<Rightarrow> bool" where
  "c_int v \<longleftrightarrow> INT_MIN \<le> v \<and> v \<le> INT_MAX"

section \<open>Dot framebuffer\<close>

text \<open>\<^verbatim>\<open>memset(fb, 0, (size_t)cw * ch)\<close>.\<close>

definition fb_clear :: "gstate \<Rightarrow> error + gstate" where
  "fb_clear s =
     (let n = nat (cw s * ch s)
      in if n \<le> length (fb s)
         then Inr (s\<lparr>fb := replicate n 0 @ drop n (fb s)\<rparr>)
         else Inl IndexOutOfRange)"

text \<open>The table \<^verbatim>\<open>bits[2][4]\<close> of \<^verbatim>\<open>fb_set\<close>.\<close>

definition bits :: "u8 list list" where
  "bits = [[0x01, 0x02, 0x04, 0x40], [0x08, 0x10, 0x20, 0x80]]"

definition fb_set :: "int \<Rightarrow> int \<Rightarrow> gstate \<Rightarrow> error + gstate" where
  "fb_set x y s =
     (if x < 0 \<or> x \<ge> pw s \<or> y < 0 \<or> y \<ge> ph s then Inr s
      else
        let i = (y div 4) * cw s + (x div 2)
        in if 0 \<le> i \<and> i < int (length (fb s))
           then Inr (s\<lparr>fb := (fb s)[nat i := (fb s ! nat i) OR (bits ! nat (x AND 1) ! nat (y AND 3))]\<rparr>)
           else Inl IndexOutOfRange)"

section \<open>Rasterizer\<close>

text \<open>
  One pass through the body of the loop of \<^verbatim>\<open>draw_line\<close> after the exit test: the
  error accumulator and the current point are advanced.
\<close>

definition line_step :: "int \<Rightarrow> int \<Rightarrow> int \<Rightarrow> int \<Rightarrow> int \<times> int \<times> int \<Rightarrow> int \<times> int \<times> int" where
  "line_step dx dy sx sy = (\<lambda>(err, x0, y0).
     let e2 = 2 * err;
         (err1, x0') = (if e2 \<ge> dy then (err + dy, x0 + sx) else (err, x0));
         (err2, y0') = (if e2 \<le> dx then (err1 + dx, y0 + sy) else (err1, y0))
     in (err2, x0', y0'))"

text \<open>
  The loop \<^verbatim>\<open>for (;;)\<close> of \<^verbatim>\<open>draw_line\<close>; \<open>c = (err, x0, y0)\<close> are the variables it
  changes. It has no bound of its own, so the model is a partial function: \<open>None\<close>
  stands for a loop that never leaves.
\<close>

partial_function (option) line_loop ::
  "int \<Rightarrow> int \<Rightarrow> int \<Rightarrow> int \<Rightarrow> int \<Rightarrow> int \<Rightarrow> int \<times> int \<times> int \<Rightarrow> gstate \<Rightarrow> (error + gstate) option" where
  "line_loop x1 y1 dx dy sx sy c s =
     (case fb_set (fst (snd c)) (snd (snd c)) s of
        Inl e \<Rightarrow> Some (Inl e)
      | Inr s' \<Rightarrow>
          if fst (snd c) = x1 \<and> snd (snd c) = y1 then Some (Inr s')
          else line_loop x1 y1 dx dy sx sy (line_step dx dy sx sy c) s')"

declare line_loop.simps [code]

definition draw_line :: "int \<Rightarrow> int \<Rightarrow> int \<Rightarrow> int \<Rightarrow> gstate \<Rightarrow> (error + gstate) option" where
  "draw_line x0 y0 x1 y1 s =
     (let dx = \<bar>x1 - x0\<bar>; sx = (if x0 < x1 then 1 else -1);
          dy = - \<bar>y1 - y0\<bar>; sy = (if y0 < y1 then 1 else -1);
          err = dx + dy
      in line_loop x1 y1 dx dy sx sy (err, x0, y0) s)"

text \<open>
  The loop over \<^verbatim>\<open>edges\<close> in \<^verbatim>\<open>main\<close> calls \<^verbatim>\<open>draw_line\<close> once per segment; the
  segments are drawn in order into the same framebuffer.
\<close>

fun draw_segments :: "((int \<times> int) \<times> (int \<times> int)) list \<Rightarrow> gstate \<Rightarrow> (error + gstate) option" where
  "draw_segments [] s = Some (Inr s)"
| "draw_segments (((x0, y0), (x1, y1)) # segs) s =
     (case draw_line x0 y0 x1 y1 s of
        None \<Rightarrow> None
      | Some (Inl e) \<Rightarrow> Some (Inl e)
      | Some (Inr s') \<Rightarrow> draw_segments segs s')"

subsection \<open>The rasterizer on 32-bit integers\<close>

text \<open>
  \<^verbatim>\<open>fb_set\<close> with the index arithmetic \<^verbatim>\<open>(y / 4) * cw + (x / 2)\<close> checked; the comparisons
  and the divisions of a coordinate in bounds cannot overflow.
\<close>

definition fb_set32 :: "int \<Rightarrow> int \<Rightarrow> gstate \<Rightarrow> error + gstate" where
  "fb_set32 x y s =
     (if x < 0 \<or> x \<ge> pw s \<or> y < 0 \<or> y \<ge> ph s then Inr s
      else if \<not> (c_int ((y div 4) * cw s) \<and> c_int ((y div 4) * cw s + (x div 2)))
      then Inl IntOverflow
      else
        let i = (y div 4) * cw s + (x div 2)
        in if 0 \<le> i \<and> i < int (length (fb s))
           then Inr (s\<lparr>fb := (fb s)[nat i := (fb s ! nat i) OR (bits ! nat (x AND 1) ! nat (y AND 3))]\<rparr>)
           else Inl IndexOutOfRange)"

text \<open>
  One pass through the body of the loop after the exit test, with \<^verbatim>\<open>2 * err\<close>,
  \<^verbatim>\<open>err += dy\<close>, \<^verbatim>\<open>x0 += sx\<close>, \<^verbatim>\<open>err += dx\<close> and \<^verbatim>\<open>y0 += sy\<close> checked.
\<close>

definition line_step32 ::
  "int \<Rightarrow> int \<Rightarrow> int \<Rightarrow> int \<Rightarrow> int \<times> int \<times> int \<Rightarrow> error + int \<times> int \<times> int" where
  "line_step32 dx dy sx sy = (\<lambda>(err, x0, y0).
     let e2 = 2 * err
     in if \<not> c_int e2 then Inl IntOverflow
        else if e2 \<ge> dy \<and> \<not> (c_int (err + dy) \<and> c_int (x0 + sx)) then Inl IntOverflow
        else
          let (err1, x0') = (if e2 \<ge> dy then (err + dy, x0 + sx) else (err, x0))
          in if e2 \<le> dx \<and> \<not> (c_int (err1 + dx) \<and> c_int (y0 + sy)) then Inl IntOverflow
             else
               let (err2, y0') = (if e2 \<le> dx then (err1 + dx, y0 + sy) else (err1, y0))
               in Inr (err2, x0', y0'))"

partial_function (option) line_loop32 ::
  "int \<Rightarrow> int \<Rightarrow> int \<Rightarrow> int \<Rightarrow> int \<Rightarrow> int \<Rightarrow> int \<times> int \<times> int \<Rightarrow> gstate \<Rightarrow> (error + gstate) option" where
  "line_loop32 x1 y1 dx dy sx sy c s =
     (case fb_set32 (fst (snd c)) (snd (snd c)) s of
        Inl e \<Rightarrow> Some (Inl e)
      | Inr s' \<Rightarrow>
          if fst (snd c) = x1 \<and> snd (snd c) = y1 then Some (Inr s')
          else case line_step32 dx dy sx sy c of
                 Inl e \<Rightarrow> Some (Inl e)
               | Inr c' \<Rightarrow> line_loop32 x1 y1 dx dy sx sy c' s')"

declare line_loop32.simps [code]

text \<open>
  \<^verbatim>\<open>draw_line\<close> with \<^verbatim>\<open>x1 - x0\<close>, \<^verbatim>\<open>abs(x1 - x0)\<close>, \<^verbatim>\<open>y1 - y0\<close>, \<^verbatim>\<open>abs(y1 - y0)\<close> and
  \<^verbatim>\<open>dx + dy\<close> checked (the negation of an absolute value that fits always fits).
\<close>

definition draw_line32 :: "int \<Rightarrow> int \<Rightarrow> int \<Rightarrow> int \<Rightarrow> gstate \<Rightarrow> (error + gstate) option" where
  "draw_line32 x0 y0 x1 y1 s =
     (if \<not> (c_int (x1 - x0) \<and> c_int \<bar>x1 - x0\<bar> \<and> c_int (y1 - y0) \<and> c_int \<bar>y1 - y0\<bar>
             \<and> c_int (\<bar>x1 - x0\<bar> + - \<bar>y1 - y0\<bar>))
      then Some (Inl IntOverflow)
      else
        let dx = \<bar>x1 - x0\<bar>; sx = (if x0 < x1 then 1 else -1);
            dy = - \<bar>y1 - y0\<bar>; sy = (if y0 < y1 then 1 else -1);
            err = dx + dy
        in line_loop32 x1 y1 dx dy sx sy (err, x0, y0) s)"

section \<open>Floating point\<close>

text \<open>
  A \<^verbatim>\<open>float\<close> is modelled by a real number, and every floating-point operation by the
  exact operation followed by a rounding function \<open>rnd\<close>, which is a parameter of the
  model. Infinities and NaN are outside the model. With \<open>rnd = id\<close> the arithmetic is
  exact. The library functions \<^verbatim>\<open>sinf\<close> and \<^verbatim>\<open>cosf\<close> are parameters as well;
  \<^verbatim>\<open>fabsf\<close>, \<^verbatim>\<open>fminf\<close> and \<^verbatim>\<open>floorf\<close> are exact.
\<close>

type_synonym rounding = "real \<Rightarrow> real"

text \<open>The conversion \<^verbatim>\<open>(float)n\<close> of an \<^verbatim>\<open>int\<close>.\<close>

definition to_float :: "rounding \<Rightarrow> int \<Rightarrow> real" where
  "to_float rnd n = rnd (of_int n)"

text \<open>The conversion \<^verbatim>\<open>(int)x\<close> of a \<^verbatim>\<open>float\<close>: the fraction is discarded.\<close>

definition to_int :: "real \<Rightarrow> int" where
  "to_int x = (if 0 \<le> x then \<lfloor>x\<rfloor> else \<lceil>x\<rceil>)"

section \<open>Physics integrator\<close>

record bounce =
  pos :: real
  vel :: real
  squash :: real

definition damp :: "rounding \<Rightarrow> real" where
  "damp rnd = rnd 0.82"

definition squash_decay :: "rounding \<Rightarrow> real" where
  "squash_decay rnd = rnd 0.70"

text \<open>
  The constants \<^verbatim>\<open>main\<close> derives from the display before the loop:
  \<^verbatim>\<open>scale\<close>, \<^verbatim>\<open>center_x\<close>, \<^verbatim>\<open>floor_py\<close>, \<^verbatim>\<open>max_bounce\<close>, \<^verbatim>\<open>grav\<close>, \<^verbatim>\<open>restart_vel\<close>.
\<close>

record params =
  scale :: real
  center_x :: real
  floor_py :: real
  max_bounce :: real
  grav :: real
  restart_vel :: real

definition derive_consts :: "rounding \<Rightarrow> gstate \<Rightarrow> params" where
  "derive_consts rnd s =
     (let scale = rnd (min (to_float rnd (pw s)) (to_float rnd (ph s)) * rnd 0.45);
          center_x = rnd (to_float rnd (pw s) / 2);
          floor_py = to_float rnd (horizon s * 4);
          max_bounce = rnd (floor_py * rnd 0.55);
          fall_frames = 22;
          grav = rnd (rnd (2 * max_bounce) / rnd (fall_frames * fall_frames));
          restart_vel = rnd (sqrt (rnd (rnd (2 * max_bounce) * grav)))
      in \<lparr>scale = scale, center_x = center_x, floor_py = floor_py, max_bounce = max_bounce,
          grav = grav, restart_vel = restart_vel\<rparr>)"

text \<open>\<^verbatim>\<open>pos = max_bounce; vel = 0; squash = 0\<close>.\<close>

definition bounce_init :: "params \<Rightarrow> bounce" where
  "bounce_init k = \<lparr>pos = max_bounce k, vel = 0, squash = 0\<rparr>"

text \<open>The block "Gravity and bounce" of the main loop, one frame.\<close>

definition physics_step :: "rounding \<Rightarrow> params \<Rightarrow> bounce \<Rightarrow> bounce" where
  "physics_step rnd k b =
     (let vel1 = rnd (vel b - grav k);
          pos1 = rnd (pos b + vel1);
          b1 = (if pos1 \<le> 0
                then
                  let squash2 = min (rnd (rnd (\<bar>vel1\<bar> / restart_vel k) * 0.5)) 0.5;
                      vel2 = rnd (\<bar>vel1\<bar> * damp rnd);
                      vel3 = (if vel2 < rnd (grav k * 8) then restart_vel k else vel2)
                  in \<lparr>pos = 0, vel = vel3, squash = squash2\<rparr>
                else \<lparr>pos = pos1, vel = vel1, squash = squash b\<rparr>)
      in b1\<lparr>squash := rnd (squash b1 * squash_decay rnd)\<rparr>)"

section \<open>Transform pipeline\<close>

definition PYR :: real where
  "PYR = 1.5"

definition base_verts :: "(real \<times> real \<times> real) list" where
  "base_verts =
     [( 1,  1,  1), ( 1,  1, -1), ( 1, -1,  1), ( 1, -1, -1),
      (-1,  1,  1), (-1,  1, -1), (-1, -1,  1), (-1, -1, -1),
      (PYR, 0, 0), (- PYR, 0, 0),
      (0, PYR, 0), (0, - PYR, 0),
      (0, 0, PYR), (0, 0, - PYR)]"

definition edges :: "(nat \<times> nat) list" where
  "edges =
     [(0,1),(0,2),(0,4),(1,3),(1,5),(2,3),(2,6),(3,7),(4,5),(4,6),(5,7),(6,7),
      (8,0),(8,1),(8,2),(8,3),
      (9,4),(9,5),(9,6),(9,7),
      (10,0),(10,1),(10,4),(10,5),
      (11,2),(11,3),(11,6),(11,7),
      (12,0),(12,2),(12,4),(12,6),
      (13,1),(13,3),(13,5),(13,7)]"

text \<open>\<^verbatim>\<open>yscale = 1.0f - squash\<close> and \<^verbatim>\<open>xzscale = 1.0f + squash * 0.5f\<close>.\<close>

definition yscale :: "rounding \<Rightarrow> real \<Rightarrow> real" where
  "yscale rnd sq = rnd (1 - sq)"

definition xzscale :: "rounding \<Rightarrow> real \<Rightarrow> real" where
  "xzscale rnd sq = rnd (1 + rnd (sq * 0.5))"

text \<open>
  The body of the loop over the vertices: rotation, squash, perspective. The sines and
  cosines of the three angles are computed once before the loop and passed in as
  \<open>(s1, c1)\<close>, \<open>(s2, c2)\<close>, \<open>(s3, c3)\<close>.
\<close>

definition project_vertex ::
  "rounding \<Rightarrow> real \<times> real \<Rightarrow> real \<times> real \<Rightarrow> real \<times> real \<Rightarrow> real \<Rightarrow> real \<Rightarrow> real \<Rightarrow> real \<Rightarrow> real
     \<Rightarrow> real \<times> real \<times> real \<Rightarrow> real \<times> real" where
  "project_vertex rnd r1 r2 r3 xzs ys obj_cx obj_cy scl = (\<lambda>(x, y, z).
     let s1 = fst r1; c1 = snd r1; s2 = fst r2; c2 = snd r2; s3 = fst r3; c3 = snd r3;
         y1 = rnd (rnd (y * c1) - rnd (z * s1));
         z1 = rnd (rnd (y * s1) + rnd (z * c1));
         x2 = rnd (rnd (x * c2) + rnd (z1 * s2));
         z2 = rnd (rnd (- x * s2) + rnd (z1 * c2));
         x3 = rnd (rnd (x2 * c3) - rnd (y1 * s3));
         y3 = rnd (rnd (x2 * s3) + rnd (y1 * c3));
         x3' = rnd (x3 * xzs);
         y3' = rnd (y3 * ys);
         d = rnd (5 + rnd (z2 * rnd 0.3))
     in (rnd (obj_cx + rnd (rnd (x3' / d) * scl)), rnd (obj_cy + rnd (rnd (y3' / d) * scl))))"

text \<open>The array \<^verbatim>\<open>proj\<close> of one frame.\<close>

definition transform ::
  "rounding \<Rightarrow> (real \<Rightarrow> real) \<Rightarrow> (real \<Rightarrow> real) \<Rightarrow> params \<Rightarrow> real \<times> real \<times> real \<Rightarrow> bounce
     \<Rightarrow> (real \<times> real) list" where
  "transform rnd sinf cosf k = (\<lambda>(ax, ay, az) b.
     let obj_cx = center_x k;
         obj_cy = rnd (rnd (floor_py k - pos b) - rnd (scale k * rnd 0.2))
     in map (project_vertex rnd (sinf ax, cosf ax) (sinf ay, cosf ay) (sinf az, cosf az)
               (xzscale rnd (squash b)) (yscale rnd (squash b)) obj_cx obj_cy (scale k))
          base_verts)"

text \<open>The segments handed to \<^verbatim>\<open>draw_line\<close>: the projected end points of each edge, cast to \<^verbatim>\<open>int\<close>.\<close>

definition edge_segments :: "(real \<times> real) list \<Rightarrow> ((int \<times> int) \<times> (int \<times> int)) list" where
  "edge_segments proj =
     map (\<lambda>(a, b). ((to_int (fst (proj ! a)), to_int (snd (proj ! a))),
                     (to_int (fst (proj ! b)), to_int (snd (proj ! b))))) edges"


section \<open>Floor field\<close>



text \<open>
  The inner loop over \<^verbatim>\<open>col\<close>, on the array \<^verbatim>\<open>floor_map\<close>; \<open>w\<close> is \<^verbatim>\<open>cw\<close> and \<open>z\<close> the
  depth of the row. The index \<^verbatim>\<open>row * cw + col\<close> is C \<^verbatim>\<open>int\<close> arithmetic and is checked.
  The two casts \<^verbatim>\<open>(int)floorf(...)\<close> are taken to be in range.
\<close>

function floor_cols :: "rounding \<Rightarrow> int \<Rightarrow> int \<Rightarrow> real \<Rightarrow> int \<Rightarrow> u8 list \<Rightarrow> error + u8 list" where
  "floor_cols rnd w row z col fm =
     (if col < w
      then
        let x = rnd (rnd (rnd (rnd (to_float rnd col / to_float rnd w) - 0.5) * z) * 8);
            ix = \<lfloor>x\<rfloor>;
            iz = \<lfloor>rnd (z * 4)\<rfloor>
        in if \<not> (c_int (row * w) \<and> c_int (row * w + col)) then Inl IntOverflow
           else
             let i = row * w + col
             in if 0 \<le> i \<and> i < int (length fm)
                then floor_cols rnd w row z (col + 1)
                       (fm[nat i := (if (ix + iz) AND 1 \<noteq> 0 then 1 else 2)])
                else Inl IndexOutOfRange
      else Inr fm)"
  by pat_completeness auto
termination
  by (relation "measure (\<lambda>(rnd, w, row, z, col, fm). nat (w - col))") auto

declare floor_cols.simps [simp del]

text \<open>The outer loop over \<^verbatim>\<open>row\<close>; \<open>h\<close> is \<^verbatim>\<open>ch\<close> and \<open>hz\<close> is \<^verbatim>\<open>horizon\<close>.\<close>

function floor_rows :: "rounding \<Rightarrow> int \<Rightarrow> int \<Rightarrow> int \<Rightarrow> real \<Rightarrow> int \<Rightarrow> u8 list \<Rightarrow> error + u8 list" where
  "floor_rows rnd w h hz floor_h row fm =
     (if row < h
      then
        let t = rnd (to_float rnd (row - hz) / floor_h);
            z = rnd (1 / t)
        in case floor_cols rnd w row z 0 fm of
             Inl e \<Rightarrow> Inl e
           | Inr fm' \<Rightarrow> floor_rows rnd w h hz floor_h (row + 1) fm'
      else Inr fm)"
  by pat_completeness auto
termination
  by (relation "measure (\<lambda>(rnd, w, h, hz, floor_h, row, fm). nat (h - row))") auto

declare floor_rows.simps [simp del]

text \<open>\<^verbatim>\<open>horizon = ch * 55 / 100\<close> is C \<^verbatim>\<open>int\<close> arithmetic; the product is checked.\<close>

definition compute_floor :: "rounding \<Rightarrow> gstate \<Rightarrow> error + gstate" where
  "compute_floor rnd s =
     (if \<not> c_int (ch s * 55) then Inl IntOverflow
      else
        let fm = replicate (nat (cw s * ch s)) 0;
            hz = ch s * 55 div 100;
            floor_h = to_float rnd (ch s - hz)
        in case floor_rows rnd (cw s) (ch s) hz floor_h (hz + 1) fm of
             Inl e \<Rightarrow> Inl e
           | Inr fm' \<Rightarrow> Inr (s\<lparr>floor_map := fm', horizon := hz\<rparr>))"

section \<open>Compositor and serializer\<close>

definition ESC :: char where
  "ESC = CHR 0x1B"

text \<open>The \<^verbatim>\<open>switch (mode)\<close> of \<^verbatim>\<open>render\<close>; it has no default case.\<close>

definition style_seq :: "int \<Rightarrow> string" where
  "style_seq mode =
     (if mode = 0 then ESC # ''[0m''
      else if mode = 1 then ESC # ''[48;5;236m''
      else if mode = 2 then ESC # ''[48;5;252m''
      else if mode = 3 then ESC # ''[0;96m''
      else [])"

text \<open>The three UTF-8 bytes of the braille code point \<^verbatim>\<open>0x2800 + fb[idx]\<close>.\<close>

definition glyph :: "u8 \<Rightarrow> string" where
  "glyph b =
     (let cp = 0x2800 + unat b
      in [char_of (0xE0 OR drop_bit 12 cp),
          char_of (0x80 OR (drop_bit 6 cp AND 0x3F)),
          char_of (0x80 OR (cp AND 0x3F))])"

text \<open>A checked read of a byte array.\<close>

definition rd :: "u8 list \<Rightarrow> int \<Rightarrow> error + u8" where
  "rd xs i = (if 0 \<le> i \<and> i < int (length xs) then Inr (xs ! nat i) else Inl IndexOutOfRange)"

text \<open>\<^verbatim>\<open>mode = fb[idx] ? 3 : floor_map[idx]\<close>.\<close>

definition cell_mode :: "gstate \<Rightarrow> int \<Rightarrow> error + int" where
  "cell_mode s idx =
     (case rd (fb s) idx of
        Inl e \<Rightarrow> Inl e
      | Inr b \<Rightarrow>
          if b \<noteq> 0 then Inr 3
          else case rd (floor_map s) idx of Inl e \<Rightarrow> Inl e | Inr f \<Rightarrow> Inr (uint f))"

text \<open>
  The inner loop of \<^verbatim>\<open>render\<close> over \<^verbatim>\<open>x\<close>: \<open>prev\<close> is the style of the cell before,
  \<open>p\<close> the text written to \<^verbatim>\<open>rbuf\<close> so far.
\<close>

function render_cols :: "gstate \<Rightarrow> int \<Rightarrow> int \<Rightarrow> int \<Rightarrow> string \<Rightarrow> error + string" where
  "render_cols s y x prev p =
     (if x < cw s
      then
        let idx = y * cw s + x
        in case cell_mode s idx of
             Inl e \<Rightarrow> Inl e
           | Inr mode \<Rightarrow>
               let p1 = (if mode \<noteq> prev then p @ style_seq mode else p);
                   prev1 = (if mode \<noteq> prev then mode else prev);
                   p2 = (if fb s ! nat idx \<noteq> 0 then p1 @ glyph (fb s ! nat idx) else p1 @ '' '')
               in render_cols s y (x + 1) prev1 p2
      else Inr p)"
  by pat_completeness auto
termination
  by (relation "measure (\<lambda>(s, y, x, prev, p). nat (cw s - x))") auto

declare render_cols.simps [simp del]

text \<open>The outer loop over \<^verbatim>\<open>y\<close>; every row starts with \<^verbatim>\<open>prev = -1\<close>.\<close>

function render_rows :: "gstate \<Rightarrow> int \<Rightarrow> string \<Rightarrow> error + string" where
  "render_rows s y p =
     (if y < ch s
      then
        case render_cols s y 0 (-1) p of
          Inl e \<Rightarrow> Inl e
        | Inr p1 \<Rightarrow>
            let p2 = p1 @ (ESC # ''[0m'');
                p3 = (if y < ch s - 1 then p2 @ [CHR 0x0A] else p2)
            in render_rows s (y + 1) p3
      else Inr p)"
  by pat_completeness auto
termination
  by (relation "measure (\<lambda>(s, y, p). nat (ch s - y))") auto

declare render_rows.simps [simp del]

text \<open>The frame written to \<^verbatim>\<open>stdout\<close>.\<close>

definition render :: "gstate \<Rightarrow> error + string" where
  "render s = render_rows s 0 (ESC # ''[H'')"


section \<open>Main program\<close>

text \<open>
  The state \<^verbatim>\<open>main\<close> sets up from the window size: \<^verbatim>\<open>cw\<close>, \<^verbatim>\<open>ch\<close>, \<^verbatim>\<open>pw = cw * 2\<close>,
  \<^verbatim>\<open>ph = ch * 4\<close> and a zeroed \<^verbatim>\<open>fb\<close> of \<^verbatim>\<open>cw * ch\<close> bytes. \<^verbatim>\<open>floor_map\<close> is not
  allocated yet.
\<close>

definition init_state :: "nat \<Rightarrow> nat \<Rightarrow> gstate" where
  "init_state col row =
     \<lparr>fb = replicate (col * row) 0, floor_map = [], cw = int col, ch = int row,
      pw = int col * 2, ph = int row * 4, horizon = 0\<rparr>"

type_synonym angles = "real \<times> real \<times> real"

text \<open>
  One pass of the main loop between the two calls of \<^verbatim>\<open>poll\<close>: clear, physics, transform,
  rasterize, render, advance the angles. The result is the new state and the frame
  written; \<open>None\<close> is a \<^verbatim>\<open>draw_line\<close> that does not return.
\<close>

definition frame ::
  "rounding \<Rightarrow> (real \<Rightarrow> real) \<Rightarrow> (real \<Rightarrow> real) \<Rightarrow> params \<Rightarrow> gstate \<times> bounce \<times> angles
     \<Rightarrow> (error + (gstate \<times> bounce \<times> angles) \<times> string) option" where
  "frame rnd sinf cosf k = (\<lambda>(s, b, (ax, ay, az)).
     case fb_clear s of
       Inl e \<Rightarrow> Some (Inl e)
     | Inr s1 \<Rightarrow>
         let b1 = physics_step rnd k b;
             proj = transform rnd sinf cosf k (ax, ay, az) b1
         in case draw_segments (edge_segments proj) s1 of
              None \<Rightarrow> None
            | Some (Inl e) \<Rightarrow> Some (Inl e)
            | Some (Inr s2) \<Rightarrow>
                (case render s2 of
                   Inl e \<Rightarrow> Some (Inl e)
                 | Inr out \<Rightarrow>
                     Some (Inr ((s2, b1, (rnd (ax + rnd 0.05), rnd (ay + rnd 0.07), rnd (az + rnd 0.03))),
                                out))))"

text \<open>
  How a run ends: an exit status, a failed array access, a loop that never returns, or
  \<open>Pending\<close> when the recorded input ends while the program is still running.
\<close>

datatype ending = Exited int | Crashed error | Hung | Pending

text \<open>
  The main loop. The input is the list of answers of \<^verbatim>\<open>poll\<close> (\<open>True\<close>: a key is
  waiting); every pass asks twice, before the frame and as the frame delay. The result
  is the ending and the frames written.
\<close>

fun main_loop ::
  "rounding \<Rightarrow> (real \<Rightarrow> real) \<Rightarrow> (real \<Rightarrow> real) \<Rightarrow> params \<Rightarrow> bool list \<Rightarrow> gstate \<times> bounce \<times> angles
     \<Rightarrow> string list \<Rightarrow> ending \<times> string list" where
  "main_loop rnd sinf cosf k [] st out = (Pending, out)"
| "main_loop rnd sinf cosf k (key # polls) st out =
     (if key then (Exited 0, out)
      else case frame rnd sinf cosf k st of
             None \<Rightarrow> (Hung, out)
           | Some (Inl e) \<Rightarrow> (Crashed e, out)
           | Some (Inr (st', f)) \<Rightarrow>
               (case polls of
                  [] \<Rightarrow> (Pending, out @ [f])
                | key2 # polls' \<Rightarrow>
                    if key2 then (Exited 0, out @ [f])
                    else main_loop rnd sinf cosf k polls' st' (out @ [f])))"

text \<open>
  \<^verbatim>\<open>main\<close>: \<open>argv\<close> are the arguments after the program name, \<open>ws\<close> is the answer of
  \<^verbatim>\<open>ioctl(TIOCGWINSZ)\<close> as (columns, rows), or \<open>None\<close> when the call fails,
  \<open>alloc_ok\<close> tells whether both buffers could be allocated.
\<close>

definition main ::
  "rounding \<Rightarrow> (real \<Rightarrow> real) \<Rightarrow> (real \<Rightarrow> real) \<Rightarrow> string list \<Rightarrow> (nat \<times> nat) option \<Rightarrow> bool
     \<Rightarrow> bool list \<Rightarrow> ending \<times> string list" where
  "main rnd sinf cosf argv ws alloc_ok polls =
     (case argv of
        a # _ \<Rightarrow> if a = ''-h'' \<or> a = ''--help'' then (Exited 0, []) else (Exited 1, [])
      | [] \<Rightarrow>
          (case ws of
             None \<Rightarrow> (Exited 1, [])
           | Some (col, row) \<Rightarrow>
               if col < 20 \<or> row < 10 then (Exited 1, [])
               else if \<not> alloc_ok then (Exited 1, [])
               else
                 case compute_floor rnd (init_state col row) of
                   Inl e \<Rightarrow> (Crashed e, [])
                 | Inr s \<Rightarrow>
                     let k = derive_consts rnd s
                     in main_loop rnd sinf cosf k polls (s, bounce_init k, (0, 0, 0)) []))"

section \<open>Notions used to state the properties\<close>

subsection \<open>Framebuffer and rasterizer\<close>

text \<open>The geometry and the framebuffer as \<^verbatim>\<open>main\<close> sets them up.\<close>

definition wf :: "gstate \<Rightarrow> bool" where
  "wf s \<longleftrightarrow> 0 \<le> cw s \<and> 0 \<le> ch s \<and> pw s = cw s * 2 \<and> ph s = ch s * 4
     \<and> length (fb s) = nat (cw s * ch s)"

text \<open>
  The same with values that are C \<^verbatim>\<open>int\<close>s and a cell count that is one: every index
  of a cell then fits.
\<close>

definition wf32 :: "gstate \<Rightarrow> bool" where
  "wf32 s \<longleftrightarrow> wf s \<and> c_int (pw s) \<and> c_int (ph s) \<and> cw s * ch s \<le> INT_MAX"

text \<open>
  End points that are C \<^verbatim>\<open>int\<close>s and not too far apart: three times the distance on
  each axis fits (the loop computes \<^verbatim>\<open>2 * err\<close> with \<open>err\<close> up to 3/2 of the distance).
\<close>

definition seg_ok :: "int \<Rightarrow> int \<Rightarrow> int \<Rightarrow> int \<Rightarrow> bool" where
  "seg_ok x0 y0 x1 y1 \<longleftrightarrow>
     c_int x0 \<and> c_int y0 \<and> c_int x1 \<and> c_int y1
     \<and> 3 * \<bar>x1 - x0\<bar> \<le> INT_MAX \<and> 3 * \<bar>y1 - y0\<bar> \<le> INT_MAX"

text \<open>A sub-pixel coordinate is in bounds.\<close>

definition inb :: "gstate \<Rightarrow> int \<Rightarrow> int \<Rightarrow> bool" where
  "inb s x y \<longleftrightarrow> 0 \<le> x \<and> x < pw s \<and> 0 \<le> y \<and> y < ph s"

text \<open>The cell of a sub-pixel and its bit in the byte of the cell.\<close>

definition cell_ix :: "gstate \<Rightarrow> int \<Rightarrow> int \<Rightarrow> nat" where
  "cell_ix s x y = nat ((y div 4) * cw s + (x div 2))"

definition dot_bit :: "int \<Rightarrow> int \<Rightarrow> u8" where
  "dot_bit x y = bits ! nat (x AND 1) ! nat (y AND 3)"

text \<open>The sub-pixel \<open>(x, y)\<close> is occupied.\<close>

definition dot_on :: "gstate \<Rightarrow> int \<Rightarrow> int \<Rightarrow> bool" where
  "dot_on s x y \<longleftrightarrow> inb s x y \<and> (fb s ! cell_ix s x y) AND dot_bit x y \<noteq> 0"

definition lit :: "gstate \<Rightarrow> (int \<times> int) set" where
  "lit s = {(x, y). dot_on s x y}"

text \<open>What \<^verbatim>\<open>fb_set\<close> does to a well-formed state.\<close>

definition mark :: "int \<Rightarrow> int \<Rightarrow> gstate \<Rightarrow> gstate" where
  "mark x y s =
     (if inb s x y
      then s\<lparr>fb := (fb s)[cell_ix s x y := (fb s ! cell_ix s x y) OR dot_bit x y]\<rparr>
      else s)"

definition marks :: "(int \<times> int) list \<Rightarrow> gstate \<Rightarrow> gstate" where
  "marks ps s = fold (\<lambda>(x, y). mark x y) ps s"

text \<open>
  The points the loop of \<^verbatim>\<open>draw_line\<close> passes to \<^verbatim>\<open>fb_set\<close>, in order, for at most
  \<open>n + 1\<close> passes; \<open>line_points\<close> is the list for a whole segment.
\<close>

fun line_trace :: "nat \<Rightarrow> int \<Rightarrow> int \<Rightarrow> int \<Rightarrow> int \<Rightarrow> int \<Rightarrow> int \<Rightarrow> int \<times> int \<times> int \<Rightarrow> (int \<times> int) list" where
  "line_trace 0 x1 y1 dx dy sx sy c = [snd c]"
| "line_trace (Suc n) x1 y1 dx dy sx sy c =
     snd c # (if snd c = (x1, y1) then []
              else line_trace n x1 y1 dx dy sx sy (line_step dx dy sx sy c))"

definition line_points :: "int \<Rightarrow> int \<Rightarrow> int \<Rightarrow> int \<Rightarrow> (int \<times> int) list" where
  "line_points x0 y0 x1 y1 =
     (let dx = \<bar>x1 - x0\<bar>; sx = (if x0 < x1 then 1 else -1);
          dy = - \<bar>y1 - y0\<bar>; sy = (if y0 < y1 then 1 else -1)
      in line_trace (nat (dx - dy)) x1 y1 dx dy sx sy (dx + dy, x0, y0))"

definition segs_points :: "((int \<times> int) \<times> (int \<times> int)) list \<Rightarrow> (int \<times> int) list" where
  "segs_points segs = concat (map (\<lambda>((x0, y0), (x1, y1)). line_points x0 y0 x1 y1) segs)"

text \<open>
  The invariant of the loop: \<open>rx\<close> and \<open>ry\<close> are the steps still to go on each axis, and
  the error accumulator is determined by them.
\<close>

definition line_inv :: "int \<Rightarrow> int \<Rightarrow> int \<Rightarrow> int \<Rightarrow> int \<Rightarrow> int \<Rightarrow> int \<Rightarrow> int \<Rightarrow> int \<times> int \<times> int \<Rightarrow> bool" where
  "line_inv x1 y1 dx dy sx sy rx ry = (\<lambda>(err, x, y).
     (sx = 1 \<or> sx = -1) \<and> (sy = 1 \<or> sy = -1) \<and>
     x1 - x = rx * sx \<and> y1 - y = ry * sy \<and>
     0 \<le> rx \<and> rx \<le> dx \<and> 0 \<le> ry \<and> ry \<le> - dy \<and>
     err = dx + dy - rx * dy - ry * dx)"

subsection \<open>Physics integrator\<close>

text \<open>
  What the properties need of the rounding function: it is monotone and leaves 0, 1/2
  and 1 as they are (all three are floating-point numbers).
\<close>

definition rounds :: "rounding \<Rightarrow> bool" where
  "rounds rnd \<longleftrightarrow> (\<forall>x y. x \<le> y \<longrightarrow> rnd x \<le> rnd y) \<and> rnd 0 = 0 \<and> rnd (1 / 2) = 1 / 2 \<and> rnd 1 = 1"

text \<open>The bounce state at the end of the \<open>n\<close>-th pass of the main loop.\<close>

fun bounce_after :: "rounding \<Rightarrow> params \<Rightarrow> nat \<Rightarrow> bounce" where
  "bounce_after rnd k 0 = bounce_init k"
| "bounce_after rnd k (Suc n) = physics_step rnd k (bounce_after rnd k n)"

text \<open>
  The velocity with which the object arrives in a step (after gravity has been
  subtracted), and the test for an impact in that step.
\<close>

definition impact_vel :: "rounding \<Rightarrow> params \<Rightarrow> bounce \<Rightarrow> real" where
  "impact_vel rnd k b = rnd (vel b - grav k)"

definition impact :: "rounding \<Rightarrow> params \<Rightarrow> bounce \<Rightarrow> bool" where
  "impact rnd k b \<longleftrightarrow> rnd (pos b + impact_vel rnd k b) \<le> 0"

text \<open>
  The constants \<^verbatim>\<open>main\<close> derives for a display of 20 columns and 10 rows (horizon row 5)
  when the arithmetic is exact.
\<close>

definition params_20x10 :: params where
  "params_20x10 =
     \<lparr>scale = 18, center_x = 20, floor_py = 20, max_bounce = 11, grav = 1 / 22, restart_vel = 1\<rparr>"

subsection \<open>Transform pipeline\<close>

text \<open>The three stages of the loop body of the transform, each on a point \<open>(x, y, z)\<close>.\<close>

definition rotate3 :: "rounding \<Rightarrow> real \<times> real \<Rightarrow> real \<times> real \<Rightarrow> real \<times> real \<Rightarrow> real \<times> real \<times> real
    \<Rightarrow> real \<times> real \<times> real" where
  "rotate3 rnd r1 r2 r3 = (\<lambda>(x, y, z).
     let s1 = fst r1; c1 = snd r1; s2 = fst r2; c2 = snd r2; s3 = fst r3; c3 = snd r3;
         y1 = rnd (rnd (y * c1) - rnd (z * s1));
         z1 = rnd (rnd (y * s1) + rnd (z * c1));
         x2 = rnd (rnd (x * c2) + rnd (z1 * s2));
         z2 = rnd (rnd (- x * s2) + rnd (z1 * c2));
         x3 = rnd (rnd (x2 * c3) - rnd (y1 * s3));
         y3 = rnd (rnd (x2 * s3) + rnd (y1 * c3))
     in (x3, y3, z2))"

definition perspective :: "rounding \<Rightarrow> real \<Rightarrow> real \<Rightarrow> real \<Rightarrow> real \<times> real \<times> real \<Rightarrow> real \<times> real" where
  "perspective rnd obj_cx obj_cy scl = (\<lambda>(x, y, z).
     let d = rnd (5 + rnd (z * rnd 0.3))
     in (rnd (obj_cx + rnd (rnd (x / d) * scl)), rnd (obj_cy + rnd (rnd (y / d) * scl))))"

text \<open>
  The scaling as the specification words it: the vertical axis by \<open>1 - squash\<close>, the
  horizontal axis and the depth axis by \<open>1 + squash / 2\<close>.
\<close>

definition squash_spec :: "rounding \<Rightarrow> real \<Rightarrow> real \<times> real \<times> real \<Rightarrow> real \<times> real \<times> real" where
  "squash_spec rnd sq = (\<lambda>(x, y, z).
     (rnd (x * rnd (1 + rnd (sq * 0.5))), rnd (y * rnd (1 - sq)), rnd (z * rnd (1 + rnd (sq * 0.5)))))"

text \<open>The scaling of the two screen axes only; the depth is left as it is.\<close>

definition squash_screen :: "rounding \<Rightarrow> real \<Rightarrow> real \<times> real \<times> real \<Rightarrow> real \<times> real \<times> real" where
  "squash_screen rnd sq = (\<lambda>(x, y, z).
     (rnd (x * rnd (1 + rnd (sq * 0.5))), rnd (y * rnd (1 - sq)), z))"

subsection \<open>Floor field\<close>


text \<open>
  The depth of a row and the byte of a cell, written out from the formulas of
  \<^verbatim>\<open>compute_floor\<close>; the lemmas about the two loops are stated with them.
\<close>

definition row_z :: "rounding \<Rightarrow> int \<Rightarrow> real \<Rightarrow> int \<Rightarrow> real" where
  "row_z rnd hz floor_h row = rnd (1 / rnd (rnd (of_int (row - hz)) / floor_h))"

definition cell_byte :: "rounding \<Rightarrow> int \<Rightarrow> real \<Rightarrow> int \<Rightarrow> u8" where
  "cell_byte rnd w z col =
     (if odd (\<lfloor>rnd (rnd (rnd (rnd (rnd (of_int col) / rnd (of_int w)) - 1 / 2) * z) * 8)\<rfloor> + \<lfloor>rnd (z * 4)\<rfloor>)
      then 1 else 2)"

subsection \<open>Compositor and serializer\<close>

text \<open>Both arrays have one byte per cell.\<close>

definition wfr :: "gstate \<Rightarrow> bool" where
  "wfr s \<longleftrightarrow> 0 \<le> cw s \<and> 0 \<le> ch s \<and> length (fb s) = nat (cw s * ch s)
     \<and> length (floor_map s) = nat (cw s * ch s)"

text \<open>The style of the cell in row \<open>y\<close> and column \<open>x\<close>.\<close>

definition mode_at :: "gstate \<Rightarrow> int \<Rightarrow> int \<Rightarrow> int" where
  "mode_at s y x =
     (if fb s ! nat (y * cw s + x) \<noteq> 0 then 3 else uint (floor_map s ! nat (y * cw s + x)))"

text \<open>
  The serializer as the specification words it. A cell starts a style run when it is the
  first of its row or its style differs from the style of the cell before it; only such a
  cell is preceded by a style sequence. Every row ends with a reset, and every row but the
  last with a newline.
\<close>

definition starts_run :: "gstate \<Rightarrow> int \<Rightarrow> int \<Rightarrow> bool" where
  "starts_run s y x \<longleftrightarrow> x = 0 \<or> mode_at s y x \<noteq> mode_at s y (x - 1)"

definition cell_text :: "gstate \<Rightarrow> int \<Rightarrow> int \<Rightarrow> string" where
  "cell_text s y x =
     (if starts_run s y x then style_seq (mode_at s y x) else [])
     @ (if fb s ! nat (y * cw s + x) \<noteq> 0 then glyph (fb s ! nat (y * cw s + x)) else '' '')"

definition row_text :: "gstate \<Rightarrow> int \<Rightarrow> string" where
  "row_text s y =
     concat (map (cell_text s y) [0..cw s - 1]) @ (ESC # ''[0m'')
     @ (if y < ch s - 1 then [CHR 0x0A] else [])"

definition render_spec :: "gstate \<Rightarrow> string" where
  "render_spec s = (ESC # ''[H'') @ concat (map (row_text s) [0..ch s - 1])"



section \<open>Properties of the framebuffer and the rasterizer\<close>

lemma and3: "(y::int) AND 3 = y mod 4"
  using take_bit_eq_mod[of 2 y] take_bit_eq_mask[of 2 y]
  by (simp add: mask_eq_exp_minus_1)

lemma and1: "(x::int) AND 1 = x mod 2"
  by (simp add: and_one_eq)

lemma mod2_cases: "(x::int) mod 2 = 0 \<or> x mod 2 = 1"
  by presburger

lemma mod4_cases: "(y::int) mod 4 = 0 \<or> y mod 4 = 1 \<or> y mod 4 = 2 \<or> y mod 4 = 3"
  by presburger

lemma dot_bit_meet:
  "dot_bit u v AND dot_bit x y \<noteq> 0 \<longleftrightarrow> u mod 2 = x mod 2 \<and> v mod 4 = y mod 4"
  using mod2_cases[of u] mod2_cases[of x] mod4_cases[of v] mod4_cases[of y]
  by (auto simp: dot_bit_def bits_def and1 and3)

lemma cell_bounds:
  assumes "wf s" "inb s x y"
  shows "0 \<le> x div 2" "x div 2 < cw s" "0 \<le> y div 4" "y div 4 < ch s"
  using assms unfolding wf_def inb_def by auto

lemma cell_in_range:
  assumes "wf s" "inb s x y"
  shows "0 \<le> (y div 4) * cw s + (x div 2)"
    and "(y div 4) * cw s + (x div 2) < int (length (fb s))"
proof -
  note b = cell_bounds[OF assms]
  have cw0: "0 \<le> cw s" using assms(1) by (simp add: wf_def)
  have "0 \<le> (y div 4) * cw s" using b(3) cw0 by simp
  then show "0 \<le> (y div 4) * cw s + (x div 2)" using b(1) by simp
  have "(y div 4) * cw s \<le> (ch s - 1) * cw s"
    using b(4) cw0 by (intro mult_right_mono) auto
  then have "(y div 4) * cw s + (x div 2) < ch s * cw s"
    using b(2) by (simp add: algebra_simps)
  moreover have "int (length (fb s)) = cw s * ch s"
    using assms(1) by (simp add: wf_def)
  ultimately show "(y div 4) * cw s + (x div 2) < int (length (fb s))"
    by (simp add: mult.commute)
qed

lemma cell_ix_less: "wf s \<Longrightarrow> inb s x y \<Longrightarrow> cell_ix s x y < length (fb s)"
  using cell_in_range[of s x y] by (simp add: cell_ix_def)

lemma cell_ix_inj:
  assumes "wf s" "inb s x y" "inb s u v"
  shows "cell_ix s u v = cell_ix s x y \<longleftrightarrow> u div 2 = x div 2 \<and> v div 4 = y div 4"
proof
  assume eq: "cell_ix s u v = cell_ix s x y"
  note b = cell_bounds[OF assms(1,2)] and c = cell_bounds[OF assms(1,3)]
  have e: "(v div 4) * cw s + (u div 2) = (y div 4) * cw s + (x div 2)"
    using eq cell_in_range(1)[OF assms(1,2)] cell_in_range(1)[OF assms(1,3)]
    by (simp add: cell_ix_def eq_nat_nat_iff)
  have "((v div 4) * cw s + (u div 2)) div cw s = v div 4"
    using c by simp
  moreover have "((y div 4) * cw s + (x div 2)) div cw s = y div 4"
    using b by simp
  ultimately have r: "v div 4 = y div 4" using e by simp
  with e show "u div 2 = x div 2 \<and> v div 4 = y div 4" by simp
qed (simp add: cell_ix_def)

lemma same_dot:
  "u div 2 = x div 2 \<Longrightarrow> v div 4 = y div 4 \<Longrightarrow> u mod 2 = x mod 2 \<Longrightarrow> v mod 4 = y mod 4
    \<Longrightarrow> (u::int) = x \<and> v = (y::int)"
  by (metis div_mult_mod_eq)

lemma fb_set_mark: "wf s \<Longrightarrow> fb_set x y s = Inr (mark x y s)"
  using cell_in_range[of s x y]
  by (auto simp: fb_set_def mark_def inb_def cell_ix_def dot_bit_def Let_def)

lemma wf_mark [simp]: "wf (mark x y s) = wf s"
  by (simp add: mark_def wf_def)

lemma inb_mark [simp]: "inb (mark x y s) = inb s"
  by (simp add: mark_def inb_def fun_eq_iff)

lemma cell_ix_mark [simp]: "cell_ix (mark x y s) = cell_ix s"
  by (simp add: mark_def cell_ix_def fun_eq_iff)

lemma dot_on_mark:
  assumes "wf s"
  shows "dot_on (mark x y s) u v \<longleftrightarrow> dot_on s u v \<or> (u = x \<and> v = y \<and> inb s x y)"
proof (cases "inb s x y \<and> inb s u v")
  case False
  have "inb s u v" if "dot_on (mark x y s) u v"
    using that by (simp add: dot_on_def)
  with False show ?thesis by (auto simp: dot_on_def mark_def)
next
  case True
  then have xy: "inb s x y" and uv: "inb s u v" by auto
  have lt: "cell_ix s x y < length (fb s)" by (rule cell_ix_less[OF assms xy])
  show ?thesis
  proof (cases "cell_ix s u v = cell_ix s x y")
    case True
    then have d: "u div 2 = x div 2" "v div 4 = y div 4"
      using cell_ix_inj[OF assms xy uv] by auto
    have "(fb (mark x y s) ! cell_ix s u v) AND dot_bit u v
        = ((fb s ! cell_ix s u v) AND dot_bit u v) OR (dot_bit x y AND dot_bit u v)"
      using True lt xy by (simp add: mark_def bit.conj_disj_distrib2)
    then have "dot_on (mark x y s) u v \<longleftrightarrow> dot_on s u v \<or> dot_bit x y AND dot_bit u v \<noteq> 0"
      using uv by (simp add: dot_on_def or_eq_0_iff)
    also have "dot_bit x y AND dot_bit u v \<noteq> 0 \<longleftrightarrow> u = x \<and> v = y"
      using same_dot[OF d] by (auto simp: dot_bit_meet)
    finally show ?thesis using xy by simp
  next
    case False
    then have "\<not> (u = x \<and> v = y)" by auto
    moreover have "fb (mark x y s) ! cell_ix s u v = fb s ! cell_ix s u v"
      using False by (simp add: mark_def)
    ultimately show ?thesis by (auto simp: dot_on_def)
  qed
qed


lemma line_inv_init:
  "line_inv x1 y1 \<bar>x1 - x0\<bar> (- \<bar>y1 - y0\<bar>) (if x0 < x1 then 1 else -1) (if y0 < y1 then 1 else -1)
     \<bar>x1 - x0\<bar> \<bar>y1 - y0\<bar> (\<bar>x1 - x0\<bar> + - \<bar>y1 - y0\<bar>, x0, y0)"
  by (simp add: line_inv_def algebra_simps)

lemma line_inv_done:
  "line_inv x1 y1 dx dy sx sy rx ry (err, x, y) \<Longrightarrow> (x = x1 \<and> y = y1) \<longleftrightarrow> (rx = 0 \<and> ry = 0)"
  by (auto simp: line_inv_def)

lemma no_x_step:
  fixes dx ady ry :: int
  assumes "0 \<le> dx" "1 \<le> ry" "ry \<le> ady"
  shows "2 * (dx - ady - ry * dx) < - ady"
proof -
  have "dx * 1 \<le> dx * ry" using assms by (intro mult_left_mono) auto
  then have "dx \<le> ry * dx" by (simp add: mult.commute)
  then show ?thesis using assms by simp
qed

lemma no_y_step:
  fixes dx ady rx :: int
  assumes "0 \<le> ady" "1 \<le> rx" "rx \<le> dx"
  shows "dx < 2 * (dx - ady + rx * ady)"
proof -
  have "ady * 1 \<le> ady * rx" using assms by (intro mult_left_mono) auto
  then have "ady \<le> rx * ady" by (simp add: mult.commute)
  then show ?thesis using assms by simp
qed

lemma line_step_inv:
  assumes inv: "line_inv x1 y1 dx dy sx sy rx ry c" and more: "snd c \<noteq> (x1, y1)"
  shows "\<exists>rx' ry'. line_inv x1 y1 dx dy sx sy rx' ry' (line_step dx dy sx sy c)
           \<and> rx' \<le> rx \<and> ry' \<le> ry \<and> rx' + ry' < rx + ry"
proof -
  obtain err x y where c: "c = (err, x, y)" by (cases c)
  from inv c have s: "sx = 1 \<or> sx = -1" "sy = 1 \<or> sy = -1"
    and r: "x1 - x = rx * sx" "y1 - y = ry * sy" "0 \<le> rx" "rx \<le> dx" "0 \<le> ry" "ry \<le> - dy"
    and e: "err = dx + dy - rx * dy - ry * dx"
    by (auto simp: line_inv_def)
  from more c r s have nz: "rx \<noteq> 0 \<or> ry \<noteq> 0" by auto
  define stepx where "stepx \<longleftrightarrow> 2 * err \<ge> dy"
  define stepy where "stepy \<longleftrightarrow> 2 * err \<le> dx"
  have some: "stepx \<or> stepy"
    using r unfolding stepx_def stepy_def by linarith
  have xok: "1 \<le> rx" if stepx
  proof (rule ccontr)
    assume "\<not> 1 \<le> rx"
    then have rx0: "rx = 0" using r by simp
    then have "1 \<le> ry" using nz r by simp
    from no_x_step[OF _ this, of dx "- dy"] r rx0 e have "2 * err < dy" by simp
    with that show False by (simp add: stepx_def)
  qed
  have yok: "1 \<le> ry" if stepy
  proof (rule ccontr)
    assume "\<not> 1 \<le> ry"
    then have ry0: "ry = 0" using r by simp
    then have "1 \<le> rx" using nz r by simp
    from no_y_step[OF _ this, of "- dy" dx] r ry0 e have "dx < 2 * err" by (simp add: algebra_simps)
    with that show False by (simp add: stepy_def)
  qed
  define rx' where "rx' = (if stepx then rx - 1 else rx)"
  define ry' where "ry' = (if stepy then ry - 1 else ry)"
  have st: "line_step dx dy sx sy c =
      ((if stepy then (if stepx then err + dy else err) + dx else (if stepx then err + dy else err)),
       (if stepx then x + sx else x), (if stepy then y + sy else y))"
    by (simp add: line_step_def c stepx_def stepy_def Let_def)
  have "line_inv x1 y1 dx dy sx sy rx' ry' (line_step dx dy sx sy c)"
    unfolding st line_inv_def rx'_def ry'_def
    using s r e xok yok by (auto simp: algebra_simps)
  moreover have "rx' \<le> rx" "ry' \<le> ry" "rx' + ry' < rx + ry"
    using some by (auto simp: rx'_def ry'_def)
  ultimately show ?thesis by blast
qed

lemma line_loop_trace:
  assumes "wf s" "line_inv x1 y1 dx dy sx sy rx ry c" "rx + ry \<le> int n"
  shows "line_loop x1 y1 dx dy sx sy c s = Some (Inr (marks (line_trace n x1 y1 dx dy sx sy c) s))
       \<and> last (line_trace n x1 y1 dx dy sx sy c) = (x1, y1)"
  using assms
proof (induction n arbitrary: c s rx ry)
  case 0
  obtain err x y where c: "c = (err, x, y)" by (cases c)
  from 0 c have "rx = 0 \<and> ry = 0" by (auto simp: line_inv_def)
  with 0(2) c have "x = x1 \<and> y = y1" using line_inv_done by blast
  with 0(1) c show ?case
    by (subst line_loop.simps) (simp add: fb_set_mark marks_def)
next
  case (Suc n)
  obtain err x y where c: "c = (err, x, y)" by (cases c)
  show ?case
  proof (cases "snd c = (x1, y1)")
    case True
    with Suc(2) c show ?thesis
      by (subst line_loop.simps) (simp add: fb_set_mark marks_def)
  next
    case False
    from line_step_inv[OF Suc(3) False] obtain rx' ry' where
      i: "line_inv x1 y1 dx dy sx sy rx' ry' (line_step dx dy sx sy c)" and
      l: "rx' + ry' < rx + ry" by blast
    from l Suc(4) have "rx' + ry' \<le> int n" by simp
    from Suc.IH[OF _ i this, of "mark x y s"] Suc(2)
    have ih: "line_loop x1 y1 dx dy sx sy (line_step dx dy sx sy c) (mark x y s)
        = Some (Inr (marks (line_trace n x1 y1 dx dy sx sy (line_step dx dy sx sy c)) (mark x y s)))"
      and la: "last (line_trace n x1 y1 dx dy sx sy (line_step dx dy sx sy c)) = (x1, y1)"
      by auto
    have ne: "line_trace n x1 y1 dx dy sx sy (line_step dx dy sx sy c) \<noteq> []"
      by (cases n) auto
    from False c have nf: "\<not> (x = x1 \<and> y = y1)" by auto
    have "line_loop x1 y1 dx dy sx sy c s
        = line_loop x1 y1 dx dy sx sy (line_step dx dy sx sy c) (mark x y s)"
      using nf Suc(2) by (subst line_loop.simps) (auto simp: fb_set_mark c)
    with ih la ne nf c show ?thesis by (auto simp: marks_def)
  qed
qed

lemma line_trace_hd: "hd (line_trace n x1 y1 dx dy sx sy c) = snd c"
  by (cases n) auto


lemma draw_line_marks:
  assumes "wf s"
  shows "draw_line x0 y0 x1 y1 s = Some (Inr (marks (line_points x0 y0 x1 y1) s))"
proof -
  have "\<bar>x1 - x0\<bar> + \<bar>y1 - y0\<bar> \<le> int (nat (\<bar>x1 - x0\<bar> - - \<bar>y1 - y0\<bar>))" by simp
  from line_loop_trace[OF assms line_inv_init this]
  show ?thesis by (simp add: draw_line_def line_points_def Let_def)
qed

lemma line_points_last: "last (line_points x0 y0 x1 y1) = (x1, y1)"
proof -
  define s :: gstate where "s = \<lparr>fb = [], floor_map = [], cw = 0, ch = 0, pw = 0, ph = 0, horizon = 0\<rparr>"
  have w: "wf s" by (simp add: wf_def s_def)
  have "\<bar>x1 - x0\<bar> + \<bar>y1 - y0\<bar> \<le> int (nat (\<bar>x1 - x0\<bar> - - \<bar>y1 - y0\<bar>))" by simp
  from line_loop_trace[OF w line_inv_init this]
  show ?thesis by (simp add: line_points_def Let_def)
qed

lemma line_points_hd: "hd (line_points x0 y0 x1 y1) = (x0, y0)"
  by (simp add: line_points_def Let_def line_trace_hd)

lemma line_points_ne: "line_points x0 y0 x1 y1 \<noteq> []"
  by (cases "nat (\<bar>x1 - x0\<bar> - - \<bar>y1 - y0\<bar>)") (auto simp: line_points_def Let_def)


lemma wf_marks [simp]: "wf (marks ps s) = wf s"
  unfolding marks_def by (induction ps arbitrary: s) (simp_all add: split_def)

lemma inb_marks [simp]: "inb (marks ps s) = inb s"
  unfolding marks_def by (induction ps arbitrary: s) (simp_all add: split_def)

lemma marks_Cons: "marks ((x, y) # ps) s = marks ps (mark x y s)"
  by (simp add: marks_def)

lemma dot_on_marks:
  "wf s \<Longrightarrow> dot_on (marks ps s) u v \<longleftrightarrow> dot_on s u v \<or> ((u, v) \<in> set ps \<and> inb s u v)"
proof (induction ps arbitrary: s)
  case Nil
  then show ?case by (simp add: marks_def)
next
  case (Cons p ps)
  obtain x y where p: "p = (x, y)" by (cases p)
  have "dot_on (marks (p # ps) s) u v \<longleftrightarrow> dot_on (mark x y s) u v \<or> ((u, v) \<in> set ps \<and> inb s u v)"
    using Cons.IH[of "mark x y s"] Cons.prems by (simp add: p marks_Cons)
  also have "dot_on (mark x y s) u v \<longleftrightarrow> dot_on s u v \<or> (u = x \<and> v = y \<and> inb s x y)"
    by (rule dot_on_mark[OF Cons.prems])
  finally show ?case unfolding p by auto
qed

lemma fb_set_outside: "\<not> inb s x y \<Longrightarrow> fb_set x y s = Inr s"
  by (auto simp: fb_set_def inb_def)

lemma line_loop_total:
  assumes "line_inv x1 y1 dx dy sx sy rx ry c" "rx + ry \<le> int n"
  shows "\<exists>r. line_loop x1 y1 dx dy sx sy c s = Some r"
  using assms
proof (induction n arbitrary: c s rx ry)
  case 0
  obtain err x y where c: "c = (err, x, y)" by (cases c)
  from 0 c have "rx = 0 \<and> ry = 0" by (auto simp: line_inv_def)
  with 0(1) c have "x = x1 \<and> y = y1" using line_inv_done by blast
  with c show ?case
    by (subst line_loop.simps) (simp split: sum.split)
next
  case (Suc n)
  obtain err x y where c: "c = (err, x, y)" by (cases c)
  show ?case
  proof (cases "snd c = (x1, y1)")
    case True
    with c show ?thesis
      by (subst line_loop.simps) (simp split: sum.split)
  next
    case False
    from line_step_inv[OF Suc(2) False] obtain rx' ry' where
      i: "line_inv x1 y1 dx dy sx sy rx' ry' (line_step dx dy sx sy c)" and
      l: "rx' + ry' < rx + ry" by blast
    from l Suc(3) have b: "rx' + ry' \<le> int n" by simp
    show ?thesis
    proof (cases "fb_set x y s")
      case (Inl e)
      with c show ?thesis by (subst line_loop.simps) simp
    next
      case (Inr s')
      from Suc.IH[OF i b, of s'] obtain r where
        "line_loop x1 y1 dx dy sx sy (line_step dx dy sx sy c) s' = Some r" by blast
      with Inr c False show ?thesis by (subst line_loop.simps) auto
    qed
  qed
qed

lemma draw_line_total: "\<exists>r. draw_line x0 y0 x1 y1 s = Some r"
proof -
  have "\<bar>x1 - x0\<bar> + \<bar>y1 - y0\<bar> \<le> int (nat (\<bar>x1 - x0\<bar> + \<bar>y1 - y0\<bar>))" by simp
  from line_loop_total[OF line_inv_init this]
  show ?thesis by (simp add: draw_line_def Let_def)
qed

lemma fb_clear_wf:
  "wf s \<Longrightarrow> fb_clear s = Inr (s\<lparr>fb := replicate (nat (cw s * ch s)) 0\<rparr>)"
  by (simp add: fb_clear_def wf_def Let_def)

lemma fb_clear_props:
  assumes "wf s" "fb_clear s = Inr c"
  shows "wf c" "inb c = inb s" "lit c = {}"
proof -
  from assms have c: "c = s\<lparr>fb := replicate (nat (cw s * ch s)) 0\<rparr>"
    by (simp add: fb_clear_wf)
  show w: "wf c" using assms(1) by (simp add: c wf_def)
  show "inb c = inb s" by (simp add: c inb_def fun_eq_iff)
  have "\<not> dot_on c x y" for x y
  proof
    assume d: "dot_on c x y"
    then have "inb c x y" by (simp add: dot_on_def)
    from cell_ix_less[OF w this] have "fb c ! cell_ix c x y = 0"
      by (simp add: c)
    with d show False by (simp add: dot_on_def)
  qed
  then show "lit c = {}" by (auto simp: lit_def)
qed







lemma length_fb_mark [simp]: "length (fb (mark x y s)) = length (fb s)"
  by (simp add: mark_def)

lemma length_fb_marks [simp]: "length (fb (marks ps s)) = length (fb s)"
  unfolding marks_def by (induction ps arbitrary: s) (simp_all add: split_def)

lemma marks_filter: "marks (filter (\<lambda>(x, y). inb s x y) ps) s = marks ps s"
proof (induction ps arbitrary: s)
  case Nil
  then show ?case by simp
next
  case (Cons p ps)
  obtain x y where p: "p = (x, y)" by (cases p)
  show ?case
  proof (cases "inb s x y")
    case True
    with Cons.IH[of "mark x y s"] show ?thesis by (simp add: p marks_Cons)
  next
    case False
    then have "mark x y s = s" by (simp add: mark_def)
    with False Cons.IH[of s] show ?thesis by (simp add: p marks_Cons)
  qed
qed





lemma marks_append: "marks (ps @ qs) s = marks qs (marks ps s)"
  by (simp add: marks_def)

lemma draw_segments_marks:
  "wf s \<Longrightarrow> draw_segments segs s = Some (Inr (marks (segs_points segs) s))"
proof (induction segs arbitrary: s)
  case Nil
  then show ?case by (simp add: segs_points_def marks_def)
next
  case (Cons g segs)
  obtain x0 y0 x1 y1 where g: "g = ((x0, y0), (x1, y1))" by (cases g) auto
  have "segs_points (g # segs) = line_points x0 y0 x1 y1 @ segs_points segs"
    by (simp add: g segs_points_def)
  with Cons.IH[of "marks (line_points x0 y0 x1 y1) s"] Cons.prems
  show ?case by (simp add: g draw_line_marks marks_append)
qed

lemma wf_init: "wf (init_state col row)"
  by (simp add: wf_def init_state_def nat_mult_distrib)


lemma inb_init: "inb (init_state col row) x y \<longleftrightarrow> 0 \<le> x \<and> x < int col * 2 \<and> 0 \<le> y \<and> y < int row * 4"
  by (simp add: inb_def init_state_def)

text \<open>
  The error accumulator stays between \<open>3/2 * dy\<close> and \<open>3/2 * dx\<close> in every pass, and the
  point moves by at most one on each axis.
\<close>

lemma line_step_bounded:
  assumes "0 \<le> dx" "dy \<le> 0" "3 * dy \<le> 2 * err" "2 * err \<le> 3 * dx"
    and "line_step dx dy sx sy (err, x, y) = (err', x', y')"
  shows "3 * dy \<le> 2 * err' \<and> 2 * err' \<le> 3 * dx \<and> x' \<in> {x, x + sx} \<and> y' \<in> {y, y + sy}"
  using assms by (auto simp: line_step_def Let_def split: if_splits)

lemma line_init_bounded:
  fixes dx ady :: int
  assumes "0 \<le> dx" "0 \<le> ady"
  shows "3 * (- ady) \<le> 2 * (dx + - ady) \<and> 2 * (dx + - ady) \<le> 3 * dx"
  using assms by simp

subsection \<open>The rasterizer on 32-bit integers\<close>

text \<open>
  On a display whose cell count fits and for end points that satisfy \<open>seg_ok\<close>, no
  operation of \<^verbatim>\<open>draw_line\<close> overflows, and the checked version does what the version on
  the mathematical integers does. Whenever the checked version returns a state, for any
  end points, it is the state of the other version.
\<close>

lemma c_int_between:
  assumes "c_int a" "c_int b" "a \<le> v" "v \<le> b"
  shows "c_int v"
  using assms by (simp add: c_int_def)

lemma fb_set32_mark: "wf32 s \<Longrightarrow> fb_set32 x y s = Inr (mark x y s)"
proof (cases "inb s x y")
  case False
  then show ?thesis by (auto simp: fb_set32_def mark_def inb_def)
next
  case True
  assume w: "wf32 s"
  then have wf: "wf s" and m: "cw s * ch s \<le> INT_MAX" by (auto simp: wf32_def)
  note r = cell_in_range[OF wf True]
  note b = cell_bounds[OF wf True]
  have cw0: "0 \<le> cw s" using wf by (simp add: wf_def)
  have p0: "0 \<le> (y div 4) * cw s" using b(3) cw0 by simp
  have len: "int (length (fb s)) = cw s * ch s" using wf by (simp add: wf_def)
  have hi: "(y div 4) * cw s + (x div 2) \<le> INT_MAX" using r(2) len m by simp
  have lo: "(y div 4) * cw s \<le> (y div 4) * cw s + (x div 2)" using b(1) by simp
  have c1: "c_int ((y div 4) * cw s + (x div 2))"
    using r(1) hi by (simp add: c_int_def INT_MIN_def)
  have c2: "c_int ((y div 4) * cw s)"
    using p0 lo hi by (simp add: c_int_def INT_MIN_def)
  from True c1 c2 fb_set_mark[OF wf, of x y] show ?thesis
    by (simp add: fb_set32_def fb_set_def inb_def)
qed

lemma fb_set32_sound: "fb_set32 x y s = Inr s' \<Longrightarrow> fb_set x y s = Inr s'"
  by (auto simp: fb_set32_def fb_set_def split: if_splits)

lemma line_step32_sound: "line_step32 dx dy sx sy c = Inr c' \<Longrightarrow> line_step dx dy sx sy c = c'"
  by (cases c) (auto simp: line_step32_def line_step_def Let_def split: if_splits)

lemma line_step32_eq:
  assumes "0 \<le> dx" "dy \<le> 0" "3 * dx \<le> INT_MAX" "3 * (- dy) \<le> INT_MAX"
    and "3 * dy \<le> 2 * err" "2 * err \<le> 3 * dx"
    and "2 * err \<ge> dy \<longrightarrow> c_int (x + sx)" "2 * err \<le> dx \<longrightarrow> c_int (y + sy)"
  shows "line_step32 dx dy sx sy (err, x, y) = Inr (line_step dx dy sx sy (err, x, y))"
proof -
  have e2: "c_int (2 * err)" using assms(1-6) by (simp add: c_int_def INT_MAX_def INT_MIN_def)
  have a1: "c_int (err + dy)" using assms(1-6) by (simp add: c_int_def INT_MAX_def INT_MIN_def)
  have a2: "c_int (err + dx)" using assms(1-6) by (simp add: c_int_def INT_MAX_def INT_MIN_def)
  have a3: "c_int (err + dy + dx)" using assms(1-6) by (simp add: c_int_def INT_MAX_def INT_MIN_def)
  show ?thesis
    using e2 a1 a2 a3 assms(7,8) by (simp add: line_step32_def line_step_def Let_def)
qed

lemma wf32_mark [simp]: "wf32 (mark x y s) = wf32 s"
  by (simp add: wf32_def) (simp add: mark_def)

lemma c_int_toward:
  assumes "c_int a" "c_int (a - d * sx)" "sx = 1 \<or> sx = - 1" "0 \<le> r" "r \<le> d"
  shows "c_int (a - r * sx)"
  using assms by (auto simp: c_int_def)

lemma line_step_point:
  "snd (line_step dx dy sx sy (err, x, y)) =
     (if 2 * err \<ge> dy then x + sx else x, if 2 * err \<le> dx then y + sy else y)"
  by (simp add: line_step_def Let_def)

lemma line_step32_ok:
  assumes inv: "line_inv x1 y1 dx dy sx sy rx ry c" and more: "snd c \<noteq> (x1, y1)"
    and e: "3 * dy \<le> 2 * fst c" "2 * fst c \<le> 3 * dx"
    and d: "3 * dx \<le> INT_MAX" "3 * (- dy) \<le> INT_MAX"
    and f: "c_int x1" "c_int (x1 - dx * sx)" "c_int y1" "c_int (y1 - (- dy) * sy)"
  shows "line_step32 dx dy sx sy c = Inr (line_step dx dy sx sy c)"
    and "3 * dy \<le> 2 * fst (line_step dx dy sx sy c)"
    and "2 * fst (line_step dx dy sx sy c) \<le> 3 * dx"
proof -
  obtain err x y where c: "c = (err, x, y)" by (cases c)
  obtain err' x' y' where c': "line_step dx dy sx sy c = (err', x', y')"
    by (cases "line_step dx dy sx sy c")
  from inv c have s: "sx = 1 \<or> sx = - 1" "sy = 1 \<or> sy = - 1" and dd: "0 \<le> dx" "dy \<le> 0"
    by (auto simp: line_inv_def)
  from line_step_inv[OF inv more] obtain rx' ry' where
    i: "line_inv x1 y1 dx dy sx sy rx' ry' (line_step dx dy sx sy c)" by blast
  from i c' have r: "x1 - x' = rx' * sx" "y1 - y' = ry' * sy" "0 \<le> rx'" "rx' \<le> dx"
    "0 \<le> ry'" "ry' \<le> - dy" by (auto simp: line_inv_def)
  have "c_int (x1 - rx' * sx)" by (rule c_int_toward[OF f(1,2) s(1) r(3,4)])
  moreover have "x1 - rx' * sx = x'" using r(1) by simp
  ultimately have fx: "c_int x'" by simp
  have "c_int (y1 - ry' * sy)" by (rule c_int_toward[OF f(3,4) s(2) r(5,6)])
  moreover have "y1 - ry' * sy = y'" using r(2) by simp
  ultimately have fy: "c_int y'" by simp
  have pt: "(x', y') = (if 2 * err \<ge> dy then x + sx else x, if 2 * err \<le> dx then y + sy else y)"
    using line_step_point[of dx dy sx sy err x y] c c' by simp
  have sx_ok: "2 * err \<ge> dy \<longrightarrow> c_int (x + sx)" using pt fx by auto
  have sy_ok: "2 * err \<le> dx \<longrightarrow> c_int (y + sy)" using pt fy by auto
  from e c have eb: "3 * dy \<le> 2 * err" "2 * err \<le> 3 * dx" by simp_all
  show "line_step32 dx dy sx sy c = Inr (line_step dx dy sx sy c)"
    unfolding c by (rule line_step32_eq[OF dd d eb sx_ok sy_ok])
  from line_step_bounded[OF dd eb, of sx sy x y err' x' y'] c c'
  show "3 * dy \<le> 2 * fst (line_step dx dy sx sy c)" "2 * fst (line_step dx dy sx sy c) \<le> 3 * dx"
    by simp_all
qed

lemma line_loop32_trace:
  assumes "wf32 s" "line_inv x1 y1 dx dy sx sy rx ry c" "rx + ry \<le> int n"
    and "3 * dy \<le> 2 * fst c" "2 * fst c \<le> 3 * dx"
    and d: "3 * dx \<le> INT_MAX" "3 * (- dy) \<le> INT_MAX"
    and f: "c_int x1" "c_int (x1 - dx * sx)" "c_int y1" "c_int (y1 - (- dy) * sy)"
  shows "line_loop32 x1 y1 dx dy sx sy c s = Some (Inr (marks (line_trace n x1 y1 dx dy sx sy c) s))"
  using assms(1-5)
proof (induction n arbitrary: c s rx ry)
  case 0
  obtain err x y where c: "c = (err, x, y)" by (cases c)
  from 0 c have "rx = 0 \<and> ry = 0" by (auto simp: line_inv_def)
  with 0(2) c have "x = x1 \<and> y = y1" using line_inv_done by blast
  with 0(1) c show ?case
    by (subst line_loop32.simps) (simp add: fb_set32_mark marks_def)
next
  case (Suc n)
  obtain err x y where c: "c = (err, x, y)" by (cases c)
  show ?case
  proof (cases "snd c = (x1, y1)")
    case True
    with Suc(2) c show ?thesis
      by (subst line_loop32.simps) (simp add: fb_set32_mark marks_def)
  next
    case False
    from line_step_inv[OF Suc(3) False] obtain rx' ry' where
      i: "line_inv x1 y1 dx dy sx sy rx' ry' (line_step dx dy sx sy c)" and
      l: "rx' + ry' < rx + ry" by blast
    from l Suc(4) have b: "rx' + ry' \<le> int n" by simp
    note ok = line_step32_ok[OF Suc(3) False Suc(5,6) d f]
    have w: "wf32 (mark x y s)" using Suc(2) by simp
    have ih: "line_loop32 x1 y1 dx dy sx sy (line_step dx dy sx sy c) (mark x y s)
        = Some (Inr (marks (line_trace n x1 y1 dx dy sx sy (line_step dx dy sx sy c)) (mark x y s)))"
      by (rule Suc.IH[OF w i b ok(2,3)])
    from False c have nf: "\<not> (x = x1 \<and> y = y1)" by auto
    have "line_loop32 x1 y1 dx dy sx sy c s
        = line_loop32 x1 y1 dx dy sx sy (line_step dx dy sx sy c) (mark x y s)"
      using nf Suc(2) ok(1) by (subst line_loop32.simps) (auto simp: fb_set32_mark c)
    with ih nf c show ?thesis by (auto simp: marks_def)
  qed
qed

lemma draw_line32_marks:
  assumes "wf32 s" "seg_ok x0 y0 x1 y1"
  shows "draw_line32 x0 y0 x1 y1 s = Some (Inr (marks (line_points x0 y0 x1 y1) s))"
proof -
  from assms(2) have c: "c_int x0" "c_int y0" "c_int x1" "c_int y1"
    and d: "3 * \<bar>x1 - x0\<bar> \<le> INT_MAX" "3 * \<bar>y1 - y0\<bar> \<le> INT_MAX"
    by (auto simp: seg_ok_def)
  let ?dx = "\<bar>x1 - x0\<bar>" and ?dy = "- \<bar>y1 - y0\<bar>"
  let ?sx = "if x0 < x1 then 1 else - 1 :: int" and ?sy = "if y0 < y1 then 1 else - 1 :: int"
  define a b where "a = \<bar>x1 - x0\<bar>" and "b = \<bar>y1 - y0\<bar>"
  have ab: "0 \<le> a" "x1 - x0 \<le> a" "- a \<le> x1 - x0" "0 \<le> b" "y1 - y0 \<le> b" "- b \<le> y1 - y0"
    by (simp_all add: a_def b_def)
  have dab: "3 * a \<le> 2147483647" "3 * b \<le> 2147483647"
    using d by (simp_all add: a_def b_def INT_MAX_def)
  have "c_int (x1 - x0)" "c_int a" "c_int (y1 - y0)" "c_int b" "c_int (a + - b)"
    using ab dab by (simp_all add: c_int_def INT_MAX_def INT_MIN_def)
  then have chk: "c_int (x1 - x0)" "c_int ?dx" "c_int (y1 - y0)" "c_int \<bar>y1 - y0\<bar>" "c_int (?dx + ?dy)"
    by (simp_all add: a_def b_def)
  have b: "\<bar>x1 - x0\<bar> + \<bar>y1 - y0\<bar> \<le> int (nat (?dx - ?dy))" by simp
  have e: "3 * ?dy \<le> 2 * fst (?dx + ?dy, x0, y0)" "2 * fst (?dx + ?dy, x0, y0) \<le> 3 * ?dx"
    using line_init_bounded[of "\<bar>x1 - x0\<bar>" "\<bar>y1 - y0\<bar>"] by simp_all
  have d': "3 * ?dx \<le> INT_MAX" "3 * (- ?dy) \<le> INT_MAX" using d by simp_all
  have fx: "c_int (x1 - ?dx * ?sx)" using c(1) by (auto simp: algebra_simps)
  have fy: "c_int (y1 - (- ?dy) * ?sy)" using c(2) by (auto simp: algebra_simps)
  from line_loop32_trace[OF assms(1) line_inv_init b e d' c(3) fx c(4) fy]
  show ?thesis using chk by (simp add: draw_line32_def line_points_def Let_def)
qed

lemma line_loop32_sound:
  assumes "line_inv x1 y1 dx dy sx sy rx ry c" "rx + ry \<le> int n"
    and "line_loop32 x1 y1 dx dy sx sy c s = Some (Inr s')"
  shows "line_loop x1 y1 dx dy sx sy c s = Some (Inr s')"
  using assms
proof (induction n arbitrary: c s rx ry)
  case 0
  obtain err x y where c: "c = (err, x, y)" by (cases c)
  from 0 c have "rx = 0 \<and> ry = 0" by (auto simp: line_inv_def)
  with 0(1) c have at: "x = x1 \<and> y = y1" using line_inv_done by blast
  from 0(3) have "fb_set32 x y s = Inr s'"
    using at c by (subst (asm) line_loop32.simps) (simp split: sum.splits)
  then have "fb_set x y s = Inr s'" by (rule fb_set32_sound)
  with at c show ?case by (subst line_loop.simps) simp
next
  case (Suc n)
  obtain err x y where c: "c = (err, x, y)" by (cases c)
  from Suc(4) obtain s1 where s1: "fb_set32 x y s = Inr s1"
    using c by (subst (asm) line_loop32.simps) (auto split: sum.splits)
  then have s1': "fb_set x y s = Inr s1" by (rule fb_set32_sound)
  show ?case
  proof (cases "snd c = (x1, y1)")
    case True
    with Suc(4) s1 c have "s1 = s'" by (subst (asm) line_loop32.simps) simp
    with True s1' c show ?thesis by (subst line_loop.simps) simp
  next
    case False
    from False c have nf: "\<not> (x = x1 \<and> y = y1)" by auto
    from Suc(4) s1 nf c obtain c' where c': "line_step32 dx dy sx sy c = Inr c'"
      and r: "line_loop32 x1 y1 dx dy sx sy c' s1 = Some (Inr s')"
      by (subst (asm) line_loop32.simps) (auto split: sum.splits)
    from line_step32_sound[OF c'] have st: "line_step dx dy sx sy c = c'" .
    from line_step_inv[OF Suc(2) False] obtain rx' ry' where
      i: "line_inv x1 y1 dx dy sx sy rx' ry' c'" and
      l: "rx' + ry' < rx + ry" unfolding st by blast
    from l Suc(3) have b: "rx' + ry' \<le> int n" by simp
    from Suc.IH[OF i b r] have "line_loop x1 y1 dx dy sx sy c' s1 = Some (Inr s')" .
    with s1' nf c st show ?thesis by (subst line_loop.simps) auto
  qed
qed

lemma draw_line32_sound:
  assumes "draw_line32 x0 y0 x1 y1 s = Some (Inr s')"
  shows "draw_line x0 y0 x1 y1 s = Some (Inr s')"
proof -
  have b: "\<bar>x1 - x0\<bar> + \<bar>y1 - y0\<bar> \<le> int (nat (\<bar>x1 - x0\<bar> + \<bar>y1 - y0\<bar>))" by simp
  from assms have "line_loop32 x1 y1 \<bar>x1 - x0\<bar> (- \<bar>y1 - y0\<bar>) (if x0 < x1 then 1 else - 1)
      (if y0 < y1 then 1 else - 1) (\<bar>x1 - x0\<bar> + - \<bar>y1 - y0\<bar>, x0, y0) s = Some (Inr s')"
    by (simp add: draw_line32_def Let_def split: if_splits)
  from line_loop32_sound[OF line_inv_init b this]
  show ?thesis by (simp add: draw_line_def Let_def)
qed

lemma wf32_marks [simp]: "wf32 (marks ps s) = wf32 s"
  unfolding marks_def by (induction ps arbitrary: s) (simp_all add: split_def)

lemma fb_set32_outside: "\<not> inb s x y \<Longrightarrow> fb_set32 x y s = Inr s"
  by (auto simp: fb_set32_def inb_def)

lemma wf32_init_20x10: "wf32 (init_state 20 10)"
  by (simp add: wf32_def wf_init) (simp add: init_state_def c_int_def INT_MAX_def INT_MIN_def)

subsection \<open>Claims about the rasterizer\<close>



text \<open>
  C5, as amended. For end points that are C \<^verbatim>\<open>int\<close>s with three times their distance on
  each axis at most \<^verbatim>\<open>INT_MAX\<close>, and a display whose cell count \<^verbatim>\<open>cw * ch\<close> is at most
  \<^verbatim>\<open>INT_MAX\<close>, \<^verbatim>\<open>draw_line\<close> returns without an integer overflow and without an array
  access out of range: the result is the state in which exactly the in-bounds points of
  the segment have been marked, a sub-pixel is occupied afterwards iff it was before or is
  an in-bounds point of the segment, and \<^verbatim>\<open>fb_set\<close> leaves the state untouched at every
  out-of-bounds coordinate.
\<close>

theorem draw_line_clips:
  assumes "wf32 s" and "seg_ok x0 y0 x1 y1"
  shows "\<exists>s'. draw_line32 x0 y0 x1 y1 s = Some (Inr s')
           \<and> s' = marks (filter (\<lambda>(x, y). inb s x y) (line_points x0 y0 x1 y1)) s
           \<and> wf32 s' \<and> length (fb s') = length (fb s)
           \<and> (\<forall>u v. dot_on s' u v \<longleftrightarrow> dot_on s u v \<or> ((u, v) \<in> set (line_points x0 y0 x1 y1) \<and> inb s u v))
           \<and> (\<forall>x y. \<not> inb s x y \<longrightarrow> fb_set32 x y s = Inr s)"
proof -
  from assms(1) have w: "wf s" by (simp add: wf32_def)
  show ?thesis
    using assms(1) w
    by (simp add: draw_line32_marks[OF assms] marks_filter dot_on_marks fb_set32_outside)
qed

theorem draw_line_clips_witness:
  "wf32 (init_state 20 10) \<and> seg_ok (-3) 0 5 3 \<and> \<not> inb (init_state 20 10) (-3) 0
   \<and> fb_set32 (-3) 0 (init_state 20 10) = Inr (init_state 20 10)
   \<and> (\<exists>s'. draw_line32 (-3) 0 5 3 (init_state 20 10) = Some (Inr s') \<and> wf32 s'
         \<and> (dot_on s' 5 3 \<longleftrightarrow> dot_on (init_state 20 10) 5 3
              \<or> ((5, 3) \<in> set (line_points (-3) 0 5 3) \<and> inb (init_state 20 10) 5 3)))"
proof -
  have o: "\<not> inb (init_state 20 10) (-3) 0" by (simp add: inb_init)
  have g: "seg_ok (-3) 0 5 3" by (simp add: seg_ok_def c_int_def INT_MAX_def INT_MIN_def)
  from draw_line_clips[OF wf32_init_20x10 g] o g
  show ?thesis using wf32_init_20x10 by auto
qed

text \<open>
  Without the two bounds the claim fails. For the end points \<open>(-1073741824, 0)\<close> and
  \<open>(1073741825, 0)\<close> the difference \<^verbatim>\<open>x1 - x0\<close> is \<open>2147483649\<close>, which is not a C
  \<^verbatim>\<open>int\<close>. On a display of 65535 columns and 65535 rows the sub-pixel \<open>(0, 144180)\<close> is in
  bounds and the index \<^verbatim>\<open>(y / 4) * cw\<close> of its cell is \<open>36045 * 65535 = 2362209075\<close>.
\<close>

theorem draw_line_clips_counterexample:
  "draw_line32 (- 1073741824) 0 1073741825 0 (init_state 20 10) = Some (Inl IntOverflow)
   \<and> fb_set32 0 144180 (init_state 65535 65535) = Inl IntOverflow"
  by (simp add: draw_line32_def fb_set32_def init_state_def c_int_def INT_MAX_def INT_MIN_def)

text \<open>
  C6, as amended. Under the same two bounds the loop of \<^verbatim>\<open>draw_line\<close> terminates without
  an overflow; the first point it visits is \<open>(x0, y0)\<close> and the last is \<open>(x1, y1)\<close>; and
  each end point is occupied afterwards iff it is in bounds.
\<close>

theorem draw_line_terminates:
  assumes "wf32 s" and "seg_ok x0 y0 x1 y1"
  shows "\<exists>s'. draw_line32 x0 y0 x1 y1 s = Some (Inr s')
           \<and> s' = marks (line_points x0 y0 x1 y1) s
           \<and> hd (line_points x0 y0 x1 y1) = (x0, y0) \<and> last (line_points x0 y0 x1 y1) = (x1, y1)
           \<and> (dot_on s' x0 y0 \<longleftrightarrow> inb s x0 y0) \<and> (dot_on s' x1 y1 \<longleftrightarrow> inb s x1 y1)"
proof -
  from assms(1) have w: "wf s" by (simp add: wf32_def)
  let ?ps = "line_points x0 y0 x1 y1"
  have ne: "?ps \<noteq> []" by (rule line_points_ne)
  have h: "(x0, y0) \<in> set ?ps" using hd_in_set[OF ne] by (simp add: line_points_hd)
  have l: "(x1, y1) \<in> set ?ps" using last_in_set[OF ne] by (simp add: line_points_last)
  have "dot_on (marks ?ps s) x0 y0 \<longleftrightarrow> inb s x0 y0"
    using dot_on_marks[OF w, of ?ps x0 y0] h by (auto simp: dot_on_def)
  moreover have "dot_on (marks ?ps s) x1 y1 \<longleftrightarrow> inb s x1 y1"
    using dot_on_marks[OF w, of ?ps x1 y1] l by (auto simp: dot_on_def)
  ultimately show ?thesis
    by (simp add: line_points_hd line_points_last draw_line32_marks[OF assms])
qed

theorem draw_line_terminates_witness:
  "wf32 (init_state 20 10) \<and> seg_ok (-3) 0 5 3
   \<and> (\<exists>s'. draw_line32 (-3) 0 5 3 (init_state 20 10) = Some (Inr s')
         \<and> \<not> dot_on s' (-3) 0 \<and> dot_on s' 5 3)"
proof -
  have i: "\<not> inb (init_state 20 10) (-3) 0" "inb (init_state 20 10) 5 3"
    by (simp_all add: inb_init)
  have g: "seg_ok (-3) 0 5 3" by (simp add: seg_ok_def c_int_def INT_MAX_def INT_MIN_def)
  from draw_line_terminates[OF wf32_init_20x10 g] i g wf32_init_20x10
  show ?thesis by auto
qed

text \<open>
  Without the bounds the claim fails. From \<open>(0, 0)\<close> to \<open>(1073741825, 0)\<close> the first pass
  of the loop computes \<^verbatim>\<open>2 * err\<close> with \<open>err = 1073741825\<close>, which is \<open>2147483650\<close>. On a
  display of 65535 columns and 65535 rows the segment from \<open>(0, 144180)\<close> to itself
  overflows in the index of its cell.
\<close>

theorem draw_line_terminates_counterexample:
  "draw_line32 0 0 1073741825 0 (init_state 20 10) = Some (Inl IntOverflow)
   \<and> draw_line32 0 144180 0 144180 (init_state 65535 65535) = Some (Inl IntOverflow)"
proof -
  have a: "fb_set32 0 0 (init_state 20 10) = Inr (mark 0 0 (init_state 20 10))"
    by (rule fb_set32_mark[OF wf32_init_20x10])
  have b: "line_step32 1073741825 0 1 (- 1) (1073741825, 0, 0) = Inl IntOverflow"
    by (simp add: line_step32_def c_int_def INT_MAX_def INT_MIN_def)
  have "draw_line32 0 0 1073741825 0 (init_state 20 10) = Some (Inl IntOverflow)"
    unfolding draw_line32_def
    by (subst line_loop32.simps) (simp add: a b c_int_def INT_MAX_def INT_MIN_def)
  moreover have c: "fb_set32 0 144180 (init_state 65535 65535) = Inl IntOverflow"
    by (simp add: fb_set32_def init_state_def c_int_def INT_MAX_def INT_MIN_def)
  have "draw_line32 0 144180 0 144180 (init_state 65535 65535) = Some (Inl IntOverflow)"
    unfolding draw_line32_def
    by (subst line_loop32.simps) (simp add: c c_int_def INT_MAX_def INT_MIN_def)
  ultimately show ?thesis by simp
qed



section \<open>Properties of the physics integrator and the transform\<close>

lemma rounds_id: "rounds id"
  by (simp add: rounds_def)

lemma rounds_nonneg: "rounds rnd \<Longrightarrow> 0 \<le> x \<Longrightarrow> 0 \<le> rnd x"
  unfolding rounds_def by (metis)

lemma rounds_le_half: "rounds rnd \<Longrightarrow> x \<le> 1 / 2 \<Longrightarrow> rnd x \<le> 1 / 2"
  unfolding rounds_def by (metis)

lemma squash_decay_range:
  assumes r: "rounds rnd"
  shows "0 \<le> squash_decay rnd \<and> squash_decay rnd \<le> 1"
proof -
  from r have m: "\<And>x y. x \<le> y \<Longrightarrow> rnd x \<le> rnd y" and z: "rnd 0 = 0" and o: "rnd 1 = 1"
    by (auto simp: rounds_def)
  have "rnd 0 \<le> rnd 0.70" by (rule m) simp
  moreover have "rnd 0.70 \<le> rnd 1" by (rule m) simp
  ultimately show ?thesis unfolding squash_decay_def z o by simp
qed

lemma decay_keeps_range:
  assumes r: "rounds rnd" and s: "0 \<le> q" "q \<le> 1 / 2"
  shows "0 \<le> rnd (q * squash_decay rnd) \<and> rnd (q * squash_decay rnd) \<le> 1 / 2"
proof -
  note d = squash_decay_range[OF r]
  have "0 \<le> q * squash_decay rnd" using s d by simp
  moreover have "q * squash_decay rnd \<le> q * 1" using s d by (intro mult_left_mono) auto
  then have "q * squash_decay rnd \<le> 1 / 2" using s by simp
  ultimately show ?thesis using rounds_nonneg[OF r] rounds_le_half[OF r] by blast
qed

lemma impact_squash_range:
  assumes r: "rounds rnd" and v: "0 < rv"
  shows "0 \<le> min (rnd (rnd (\<bar>v\<bar> / rv) * 0.5)) 0.5 \<and> min (rnd (rnd (\<bar>v\<bar> / rv) * 0.5)) 0.5 \<le> 1 / 2"
proof -
  have "0 \<le> \<bar>v\<bar> / rv" using v by simp
  then have "0 \<le> rnd (\<bar>v\<bar> / rv)" by (rule rounds_nonneg[OF r])
  then have "0 \<le> rnd (\<bar>v\<bar> / rv) * 0.5" by simp
  then have "0 \<le> rnd (rnd (\<bar>v\<bar> / rv) * 0.5)" by (rule rounds_nonneg[OF r])
  then show ?thesis by simp
qed

lemma physics_step_pos: "0 \<le> pos (physics_step rnd k b)"
  by (simp add: physics_step_def Let_def)

lemma physics_step_squash:
  assumes r: "rounds rnd" and v: "0 < restart_vel k" and s: "0 \<le> squash b" "squash b \<le> 1 / 2"
  shows "0 \<le> squash (physics_step rnd k b) \<and> squash (physics_step rnd k b) \<le> 1 / 2"
proof (cases "rnd (pos b + rnd (vel b - grav k)) \<le> 0")
  case True
  then have "squash (physics_step rnd k b)
      = rnd (min (rnd (rnd (\<bar>rnd (vel b - grav k)\<bar> / restart_vel k) * 0.5)) 0.5 * squash_decay rnd)"
    by (simp add: physics_step_def Let_def)
  with decay_keeps_range[OF r] impact_squash_range[OF r v, of "rnd (vel b - grav k)"]
  show ?thesis by simp
next
  case False
  then have "squash (physics_step rnd k b) = rnd (squash b * squash_decay rnd)"
    by (simp add: physics_step_def Let_def)
  with decay_keeps_range[OF r s] show ?thesis by simp
qed

lemma bounce_after_squash:
  assumes r: "rounds rnd" and v: "0 < restart_vel k"
  shows "0 \<le> squash (bounce_after rnd k n) \<and> squash (bounce_after rnd k n) \<le> 1 / 2"
proof (induction n)
  case 0
  show ?case by (simp add: bounce_init_def)
next
  case (Suc n)
  then show ?case using physics_step_squash[OF r v] by simp
qed

lemma derive_consts_20x10:
  "derive_consts id ((init_state 20 10)\<lparr>horizon := 5\<rparr>) = params_20x10"
  by (simp add: derive_consts_def init_state_def params_20x10_def to_float_def Let_def)

subsection \<open>Claims about the physics integrator and the transform\<close>

text \<open>
  C1. For every bounce state the main loop reaches (the state after \<open>n\<close> passes, for any
  \<open>n\<close>), the state after one more step of the integrator has a vertical position that is
  not negative and a squash factor between 0 and 1/2. The rounding function is monotone
  and fixes 0, 1/2 and 1, and \<^verbatim>\<open>restart_vel\<close> is positive, as it is for every display
  \<^verbatim>\<open>main\<close> accepts.
\<close>

theorem physics_invariant:
  assumes "rounds rnd" and "0 < restart_vel k"
  shows "0 \<le> pos (physics_step rnd k (bounce_after rnd k n))
       \<and> 0 \<le> squash (physics_step rnd k (bounce_after rnd k n))
       \<and> squash (physics_step rnd k (bounce_after rnd k n)) \<le> 1 / 2"
  using bounce_after_squash[OF assms, of "Suc n"] physics_step_pos[of rnd k "bounce_after rnd k n"]
  by simp

theorem physics_invariant_witness:
  "rounds id \<and> 0 < restart_vel params_20x10
   \<and> 0 \<le> pos (physics_step id params_20x10 (bounce_after id params_20x10 3))
   \<and> 0 \<le> squash (physics_step id params_20x10 (bounce_after id params_20x10 3))
   \<and> squash (physics_step id params_20x10 (bounce_after id params_20x10 3)) \<le> 1 / 2"
proof -
  have v: "0 < restart_vel params_20x10" by (simp add: params_20x10_def)
  from physics_invariant[OF rounds_id v, of 3] v rounds_id show ?thesis by simp
qed

text \<open>
  C2. In every step with an impact (the new position is zero or below), the magnitude of
  the velocity after the step is the magnitude of the velocity at the impact times the
  damping constant \<^verbatim>\<open>0.82f\<close>, unless that product is below the threshold
  \<^verbatim>\<open>grav * 8\<close>: then it is exactly \<^verbatim>\<open>restart_vel\<close>. The velocity at the impact is the
  one the step arrives with, after gravity has been subtracted; the product is the
  floating-point product.
\<close>

theorem impact_velocity:
  assumes "rounds rnd" and "0 \<le> restart_vel k" and "impact rnd k b"
  shows "\<bar>vel (physics_step rnd k b)\<bar> =
           (if rnd (\<bar>impact_vel rnd k b\<bar> * damp rnd) < rnd (grav k * 8) then restart_vel k
            else rnd (\<bar>impact_vel rnd k b\<bar> * damp rnd))"
proof -
  have "0 \<le> damp rnd" using assms(1) by (simp add: damp_def rounds_nonneg)
  then have "0 \<le> \<bar>impact_vel rnd k b\<bar> * damp rnd" by simp
  then have "0 \<le> rnd (\<bar>impact_vel rnd k b\<bar> * damp rnd)" by (rule rounds_nonneg[OF assms(1)])
  with assms(2,3) show ?thesis
    by (simp add: physics_step_def impact_def impact_vel_def Let_def)
qed

theorem impact_velocity_witness:
  "rounds id \<and> 0 \<le> restart_vel params_20x10
   \<and> impact id params_20x10 \<lparr>pos = 1, vel = - 2, squash = 0\<rparr>
   \<and> \<bar>vel (physics_step id params_20x10 \<lparr>pos = 1, vel = - 2, squash = 0\<rparr>)\<bar> = (2 + 1 / 22) * 0.82
   \<and> impact id params_20x10 \<lparr>pos = 0, vel = 0, squash = 0\<rparr>
   \<and> \<bar>vel (physics_step id params_20x10 \<lparr>pos = 0, vel = 0, squash = 0\<rparr>)\<bar> = 1"
proof -
  have v: "0 \<le> restart_vel params_20x10" by (simp add: params_20x10_def)
  have i1: "impact id params_20x10 \<lparr>pos = 1, vel = - 2, squash = 0\<rparr>"
    and i2: "impact id params_20x10 \<lparr>pos = 0, vel = 0, squash = 0\<rparr>"
    by (simp_all add: impact_def impact_vel_def params_20x10_def)
  from impact_velocity[OF rounds_id v i1] impact_velocity[OF rounds_id v i2] v i1 i2 rounds_id
  show ?thesis by (simp add: impact_vel_def damp_def params_20x10_def)
qed

text \<open>
  C3, as amended. For every vertex, all angles and every squash factor, the transform
  scales the vertical screen axis by \<open>1 - squash\<close> and the horizontal screen axis by
  \<open>1 + squash / 2\<close> after the rotation and before the perspective divide; the depth
  coordinate, from which the divisor of the perspective divide is computed, is not scaled.
\<close>

theorem transform_scaling:
  "project_vertex rnd r1 r2 r3 (xzscale rnd sq) (yscale rnd sq) obj_cx obj_cy scl v
     = perspective rnd obj_cx obj_cy scl (squash_screen rnd sq (rotate3 rnd r1 r2 r3 v))"
  by (cases v) (simp add: project_vertex_def perspective_def squash_screen_def rotate3_def
      xzscale_def yscale_def Let_def)

text \<open>
  The claim as it is worded also scales the depth axis by \<open>1 + squash / 2\<close>. With exact
  arithmetic, no rotation, squash 1/2 and the vertex \<open>(1, 1, 1)\<close> the code divides by
  \<open>5.3\<close>, the worded pipeline by \<open>5.375\<close>.
\<close>

theorem transform_scaling_counterexample:
  "project_vertex id (0, 1) (0, 1) (0, 1) (xzscale id (1 / 2)) (yscale id (1 / 2)) 0 0 1 (1, 1, 1)
     \<noteq> perspective id 0 0 1 (squash_spec id (1 / 2) (rotate3 id (0, 1) (0, 1) (0, 1) (1, 1, 1)))"
  by (simp add: project_vertex_def perspective_def squash_spec_def rotate3_def
      xzscale_def yscale_def Let_def)

section \<open>Properties of the floor field\<close>

lemma row_cell_less:
  fixes r r' w c :: int
  assumes "0 \<le> w" "c < w" "r < r'"
  shows "r * w + c < r' * w"
proof -
  have "(r + 1) * w \<le> r' * w" using assms by (intro mult_right_mono) auto
  then show ?thesis using assms(2) by (simp add: algebra_simps)
qed

lemma floor_cols_result:
  assumes "0 \<le> col" "0 \<le> row * w" "row * w + w \<le> int (length fm)" "row * w + w \<le> INT_MAX"
    and "nat (w - col) = n"
  shows "\<exists>fm'. floor_cols rnd w row z col fm = Inr fm' \<and> length fm' = length fm
           \<and> (\<forall>j < length fm. fm' ! j =
                 (if row * w + col \<le> int j \<and> int j < row * w + w
                  then cell_byte rnd w z (int j - row * w)
                  else fm ! j))"
  using assms(1,3,5)
proof (induction n arbitrary: col fm)
  case 0
  then have "\<not> col < w" by simp
  then show ?case by (subst floor_cols.simps) auto
next
  case (Suc n)
  then have lt: "col < w" by simp
  let ?i = "row * w + col"
  let ?v = "cell_byte rnd w z col"
  let ?fm1 = "fm[nat ?i := ?v]"
  have i0: "0 \<le> ?i" using Suc.prems assms(2) by simp
  have il: "?i < int (length fm)" using Suc.prems lt by simp
  have c1: "c_int (row * w)" using assms(2,4) lt Suc.prems(1)
    by (simp add: c_int_def INT_MIN_def)
  have c2: "c_int ?i" using i0 assms(4) lt by (simp add: c_int_def INT_MIN_def)
  have st: "floor_cols rnd w row z col fm = floor_cols rnd w row z (col + 1) ?fm1"
    using lt i0 il c1 c2
    by (subst floor_cols.simps)
      (simp add: Let_def cell_byte_def to_float_def and_one_eq mod_2_eq_odd)
  have p1: "0 \<le> col + 1" using Suc.prems(1) by simp
  have p3: "row * w + w \<le> int (length ?fm1)" using Suc.prems(2) by simp
  have p5: "nat (w - (col + 1)) = n" using Suc.prems(3) by simp
  from Suc.IH[OF p1 p3 p5]
  obtain fm' where r: "floor_cols rnd w row z (col + 1) ?fm1 = Inr fm'"
    and l: "length fm' = length ?fm1"
    and c: "\<forall>j < length ?fm1. fm' ! j =
                 (if row * w + (col + 1) \<le> int j \<and> int j < row * w + w
                  then cell_byte rnd w z (int j - row * w)
                  else ?fm1 ! j)"
    by blast
  have "fm' ! j = (if ?i \<le> int j \<and> int j < row * w + w
                  then cell_byte rnd w z (int j - row * w)
                  else fm ! j)" if j: "j < length fm" for j
  proof -
    have cj: "fm' ! j = (if row * w + (col + 1) \<le> int j \<and> int j < row * w + w
                  then cell_byte rnd w z (int j - row * w)
                  else ?fm1 ! j)"
      using c j by simp
    show ?thesis
    proof (cases "int j = ?i")
      case True
      then have "j = nat ?i" by simp
      with cj j True lt show ?thesis by simp
    next
      case False
      then have "j \<noteq> nat ?i" using i0 by auto
      with cj False show ?thesis by auto
    qed
  qed
  with st r l show ?case by simp
qed

lemma floor_rows_result:
  assumes "0 \<le> row" "0 \<le> w" "h * w \<le> int (length fm)" "h * w \<le> INT_MAX" "nat (h - row) = n"
  shows "\<exists>fm'. floor_rows rnd w h hz floor_h row fm = Inr fm' \<and> length fm' = length fm
           \<and> (\<forall>r c. 0 \<le> r \<and> r < h \<and> 0 \<le> c \<and> c < w \<longrightarrow>
                 fm' ! nat (r * w + c) =
                   (if row \<le> r then cell_byte rnd w (row_z rnd hz floor_h r) c
                    else fm ! nat (r * w + c)))"
  using assms(1,3,5)
proof (induction n arbitrary: row fm)
  case 0
  then have "\<not> row < h" by simp
  then show ?case by (subst floor_rows.simps) simp
next
  case (Suc n)
  then have lt: "row < h" by simp
  let ?z = "row_z rnd hz floor_h row"
  let ?code = "\<lambda>r c. cell_byte rnd w (row_z rnd hz floor_h r) c"
  have rw0: "0 \<le> row * w" using Suc.prems assms(2) by simp
  have rh: "(row + 1) * w \<le> h * w" using lt assms(2) by (intro mult_right_mono) auto
  then have rw1: "row * w + w \<le> int (length fm)" using Suc.prems(2) by (simp add: algebra_simps)
  have rw2: "row * w + w \<le> INT_MAX" using rh assms(4) by (simp add: algebra_simps)
  have z0: "(0::int) \<le> 0" by simp
  from floor_cols_result[OF z0 rw0 rw1 rw2 refl, of rnd ?z]
  obtain fm1 where r1: "floor_cols rnd w row ?z 0 fm = Inr fm1"
    and l1: "length fm1 = length fm"
    and c1: "\<forall>j < length fm. fm1 ! j =
                 (if row * w + 0 \<le> int j \<and> int j < row * w + w
                  then cell_byte rnd w ?z (int j - row * w)
                  else fm ! j)"
    by blast
  have st: "floor_rows rnd w h hz floor_h row fm = floor_rows rnd w h hz floor_h (row + 1) fm1"
    using lt r1 by (subst floor_rows.simps) (simp add: Let_def row_z_def to_float_def)
  have p1: "0 \<le> row + 1" using Suc.prems(1) by simp
  have p3: "h * w \<le> int (length fm1)" using Suc.prems(2) l1 by simp
  have p4: "nat (h - (row + 1)) = n" using Suc.prems(3) by simp
  from Suc.IH[OF p1 p3 p4]
  obtain fm' where r: "floor_rows rnd w h hz floor_h (row + 1) fm1 = Inr fm'"
    and l: "length fm' = length fm1"
    and c: "\<forall>r c. 0 \<le> r \<and> r < h \<and> 0 \<le> c \<and> c < w \<longrightarrow>
                 fm' ! nat (r * w + c) = (if row + 1 \<le> r then ?code r c else fm1 ! nat (r * w + c))"
    by blast
  have "fm' ! nat (r * w + c) = (if row \<le> r then ?code r c else fm ! nat (r * w + c))"
    if rc: "0 \<le> r" "r < h" "0 \<le> c" "c < w" for r c
  proof -
    have p0: "0 \<le> r * w" using rc(1) assms(2) by simp
    have "r * w + c < h * w" by (rule row_cell_less[OF assms(2) rc(4) rc(2)])
    then have jl: "nat (r * w + c) < length fm" using Suc.prems(2) p0 rc(3) by simp
    have ij: "int (nat (r * w + c)) = r * w + c" using p0 rc(3) by simp
    have cr: "fm' ! nat (r * w + c) = (if row + 1 \<le> r then ?code r c else fm1 ! nat (r * w + c))"
      using c rc by blast
    have c1r: "fm1 ! nat (r * w + c) =
                 (if row * w \<le> r * w + c \<and> r * w + c < row * w + w
                  then cell_byte rnd w ?z (r * w + c - row * w)
                  else fm ! nat (r * w + c))"
      using c1[rule_format, OF jl] by (simp only: ij add_0_right)
    consider "row + 1 \<le> r" | "r = row" | "r < row" by linarith
    then show ?thesis
    proof cases
      case 1
      then show ?thesis by (simp add: cr)
    next
      case 2
      with cr c1r rc(3,4) show ?thesis by simp
    next
      case 3
      have "r * w + c < row * w" by (rule row_cell_less[OF assms(2) rc(4) 3])
      with cr c1r 3 show ?thesis by simp
    qed
  qed
  then have "\<forall>r c. 0 \<le> r \<and> r < h \<and> 0 \<le> c \<and> c < w \<longrightarrow>
      fm' ! nat (r * w + c) = (if row \<le> r then ?code r c else fm ! nat (r * w + c))"
    by blast
  with r l l1 show ?case unfolding st by simp
qed

lemma compute_floor_result:
  assumes "0 \<le> cw s" "0 \<le> ch s" "ch s \<le> 65535" "cw s * ch s \<le> INT_MAX"
  shows "\<exists>s'. compute_floor rnd s = Inr s' \<and> horizon s' = ch s * 55 div 100
           \<and> cw s' = cw s \<and> ch s' = ch s \<and> pw s' = pw s \<and> ph s' = ph s \<and> fb s' = fb s
           \<and> length (floor_map s') = nat (cw s * ch s)
           \<and> (\<forall>row col. 0 \<le> row \<and> row < ch s \<and> 0 \<le> col \<and> col < cw s \<longrightarrow>
                 floor_map s' ! nat (row * cw s + col) =
                   (if row \<le> ch s * 55 div 100 then 0
                    else cell_byte rnd (cw s)
                           (row_z rnd (ch s * 55 div 100) (rnd (of_int (ch s - ch s * 55 div 100))) row) col))"
proof -
  define fm :: "u8 list" where "fm = replicate (nat (cw s * ch s)) 0"
  define hz where "hz = ch s * 55 div 100"
  define fh where "fh = rnd (of_int (ch s - hz))"
  have ck: "c_int (ch s * 55)" using assms(2,3) by (simp add: c_int_def INT_MAX_def INT_MIN_def)
  have hz0: "0 \<le> hz + 1" using assms(2) by (simp add: hz_def)
  have len: "ch s * cw s \<le> int (length fm)" using assms by (simp add: mult.commute fm_def)
  have mx: "ch s * cw s \<le> INT_MAX" using assms(4) by (simp add: mult.commute)
  from floor_rows_result[OF hz0 assms(1) len mx refl, of rnd hz fh]
  obtain fm' where r: "floor_rows rnd (cw s) (ch s) hz fh (hz + 1) fm = Inr fm'"
    and l: "length fm' = length fm"
    and c: "\<forall>r c. 0 \<le> r \<and> r < ch s \<and> 0 \<le> c \<and> c < cw s \<longrightarrow>
                 fm' ! nat (r * cw s + c) =
                   (if hz + 1 \<le> r then cell_byte rnd (cw s) (row_z rnd hz fh r) c
                    else fm ! nat (r * cw s + c))"
    by blast
  have cells: "fm' ! nat (row * cw s + col) =
                   (if row \<le> hz then 0 else cell_byte rnd (cw s) (row_z rnd hz fh row) col)"
    if rc: "0 \<le> row" "row < ch s" "0 \<le> col" "col < cw s" for row col
  proof -
    have "row * cw s + col < ch s * cw s" by (rule row_cell_less[OF assms(1) rc(4) rc(2)])
    moreover have "0 \<le> row * cw s" using rc(1) assms(1) by simp
    ultimately have "nat (row * cw s + col) < nat (cw s * ch s)"
      using rc(3) by (simp add: mult.commute)
    then have z: "fm ! nat (row * cw s + col) = 0" by (simp add: fm_def)
    have cr: "fm' ! nat (row * cw s + col) =
                   (if hz + 1 \<le> row then cell_byte rnd (cw s) (row_z rnd hz fh row) col
                    else fm ! nat (row * cw s + col))"
      using c rc by blast
    show ?thesis
    proof (cases "row \<le> hz")
      case True
      then show ?thesis by (simp add: cr z)
    next
      case False
      then have "hz + 1 \<le> row" by simp
      with False show ?thesis by (simp add: cr)
    qed
  qed
  have cf: "compute_floor rnd s = Inr (s\<lparr>floor_map := fm', horizon := hz\<rparr>)"
    using r ck by (simp add: compute_floor_def Let_def fm_def hz_def fh_def to_float_def)
  have "length fm' = nat (cw s * ch s)" using l by (simp add: fm_def)
  with cells show ?thesis unfolding cf hz_def fh_def by simp
qed

subsection \<open>Claim about the floor field\<close>




section \<open>Properties of the serializer and of the main program\<close>

lemma cell_index_range:
  fixes y x w h :: int
  assumes "0 \<le> w" "0 \<le> y" "y < h" "0 \<le> x" "x < w"
  shows "0 \<le> y * w + x" "y * w + x < w * h"
proof -
  show "0 \<le> y * w + x" using assms by simp
  have "y * w + x < h * w" by (rule row_cell_less[OF assms(1) assms(5) assms(3)])
  then show "y * w + x < w * h" by (simp add: mult.commute)
qed

lemma cell_mode_at:
  assumes "wfr s" "0 \<le> y" "y < ch s" "0 \<le> x" "x < cw s"
  shows "cell_mode s (y * cw s + x) = Inr (mode_at s y x)"
proof -
  from assms(1) have w: "0 \<le> cw s" and l: "length (fb s) = nat (cw s * ch s)"
    "length (floor_map s) = nat (cw s * ch s)" by (auto simp: wfr_def)
  note r = cell_index_range[OF w assms(2-5)]
  from r l show ?thesis by (simp add: cell_mode_def rd_def mode_at_def)
qed

lemma mode_at_nonneg: "0 \<le> mode_at s y x"
  by (simp add: mode_at_def)

lemma render_cols_text:
  assumes "wfr s" "0 \<le> y" "y < ch s" "0 \<le> x"
    and "if x = 0 then prev = - 1 else prev = mode_at s y (x - 1)"
    and "nat (cw s - x) = n"
  shows "render_cols s y x prev p = Inr (p @ concat (map (cell_text s y) [x..cw s - 1]))"
  using assms(4-6)
proof (induction n arbitrary: x prev p)
  case 0
  then have "\<not> x < cw s" by simp
  then show ?case by (subst render_cols.simps) simp
next
  case (Suc n)
  then have lt: "x < cw s" by simp
  have m: "cell_mode s (y * cw s + x) = Inr (mode_at s y x)"
    by (rule cell_mode_at[OF assms(1-3) Suc.prems(1) lt])
  have ne: "mode_at s y x \<noteq> prev \<longleftrightarrow> starts_run s y x"
    using Suc.prems(2) mode_at_nonneg[of s y x] by (auto simp: starts_run_def split: if_splits)
  define prev1 where "prev1 = (if mode_at s y x \<noteq> prev then mode_at s y x else prev)"
  have p1: "prev1 = mode_at s y x" by (simp add: prev1_def)
  have st: "render_cols s y x prev p = render_cols s y (x + 1) prev1 (p @ cell_text s y x)"
    using lt m ne by (subst render_cols.simps) (simp add: Let_def cell_text_def prev1_def)
  have i: "if x + 1 = 0 then prev1 = - 1 else prev1 = mode_at s y (x + 1 - 1)"
    using Suc.prems(1) p1 by simp
  have "nat (cw s - (x + 1)) = n" using Suc.prems(3) by simp
  from Suc.IH[OF _ i this, of "p @ cell_text s y x"] Suc.prems(1)
  have "render_cols s y (x + 1) prev1 (p @ cell_text s y x)
      = Inr ((p @ cell_text s y x) @ concat (map (cell_text s y) [x + 1..cw s - 1]))"
    by simp
  moreover have "[x..cw s - 1] = x # [x + 1..cw s - 1]" using lt by (simp add: upto_rec1)
  ultimately show ?case unfolding st by simp
qed

lemma render_rows_text:
  assumes "wfr s" "0 \<le> y" "nat (ch s - y) = n"
  shows "render_rows s y p = Inr (p @ concat (map (row_text s) [y..ch s - 1]))"
  using assms(2,3)
proof (induction n arbitrary: y p)
  case 0
  then have "\<not> y < ch s" by simp
  then show ?case by (subst render_rows.simps) simp
next
  case (Suc n)
  then have lt: "y < ch s" by simp
  have z0: "(0::int) \<le> 0" by simp
  have c: "render_cols s y 0 (- 1) p = Inr (p @ concat (map (cell_text s y) [0..cw s - 1]))"
    by (rule render_cols_text[OF assms(1) Suc.prems(1) lt z0 _ refl]) simp
  have st: "render_rows s y p = render_rows s (y + 1) (p @ row_text s y)"
    using lt c by (subst render_rows.simps) (simp add: Let_def row_text_def)
  have "nat (ch s - (y + 1)) = n" using Suc.prems(2) by simp
  from Suc.IH[OF _ this, of "p @ row_text s y"] Suc.prems(1)
  have "render_rows s (y + 1) (p @ row_text s y)
      = Inr ((p @ row_text s y) @ concat (map (row_text s) [y + 1..ch s - 1]))"
    by simp
  moreover have "[y..ch s - 1] = y # [y + 1..ch s - 1]" using lt by (simp add: upto_rec1)
  ultimately show ?case unfolding st by simp
qed

lemma render_text: "wfr s \<Longrightarrow> render s = Inr (render_spec s)"
  using render_rows_text[of s 0 "nat (ch s)" "ESC # ''[H''"]
  by (simp add: render_def render_spec_def)




text \<open>
  One pass of the main loop returns a frame, and a display of at least 20 columns and
  10 rows whose cell count fits gets one.
\<close>

lemma marks_fields [simp]:
  "cw (marks ps s) = cw s" "ch (marks ps s) = ch s" "floor_map (marks ps s) = floor_map s"
  unfolding marks_def by (induction ps arbitrary: s) (simp_all add: split_def mark_def)

lemma frame_returns:
  assumes "wf s" "wfr s"
  shows "\<exists>st f. frame rnd sinf cosf k (s, b, a) = Some (Inr (st, f))"
proof -
  obtain ax ay az where a: "a = (ax, ay, az)" by (cases a)
  define c where "c = s\<lparr>fb := replicate (nat (cw s * ch s)) 0\<rparr>"
  have cl: "fb_clear s = Inr c" by (simp add: fb_clear_wf[OF assms(1)] c_def)
  have wc: "wf c" using fb_clear_props(1)[OF assms(1) cl] .
  have rc: "wfr c" using assms(2) by (simp add: wfr_def c_def)
  define segs where "segs = edge_segments (transform rnd sinf cosf k (ax, ay, az) (physics_step rnd k b))"
  define s2 where "s2 = marks (segs_points segs) c"
  have d: "draw_segments segs c = Some (Inr s2)" by (simp add: draw_segments_marks[OF wc] s2_def)
  have "wfr s2" using rc by (simp add: wfr_def s2_def)
  then have r: "render s2 = Inr (render_spec s2)" by (rule render_text)
  show ?thesis using cl d r by (simp add: frame_def a Let_def segs_def)
qed

lemma main_renders_frame:
  assumes "20 \<le> col" "10 \<le> row" "row \<le> 65535" "int col * int row \<le> INT_MAX"
  shows "\<exists>f. main rnd sinf cosf [] (Some (col, row)) True [False, True] = (Exited 0, [f])"
proof -
  let ?s = "init_state col row"
  have g: "0 \<le> cw ?s" "0 \<le> ch ?s" "ch ?s \<le> 65535" "cw ?s * ch ?s \<le> INT_MAX"
    using assms(3,4) by (simp_all add: init_state_def)
  from compute_floor_result[OF g, of rnd] obtain s1 where
    cf: "compute_floor rnd ?s = Inr s1" and
    e: "cw s1 = cw ?s" "ch s1 = ch ?s" "pw s1 = pw ?s" "ph s1 = ph ?s" "fb s1 = fb ?s"
      "length (floor_map s1) = nat (cw ?s * ch ?s)"
    by blast
  have w: "wf s1" using wf_init[of col row] e by (simp add: wf_def)
  then have r: "wfr s1" using e by (simp add: wf_def wfr_def)
  from frame_returns[OF w r] obtain st f where
    "frame rnd sinf cosf (derive_consts rnd s1) (s1, bounce_init (derive_consts rnd s1), (0, 0, 0))
       = Some (Inr (st, f))" by blast
  with cf assms show ?thesis by (simp add: main_def Let_def)
qed

subsection \<open>Claims about the serializer and the main program\<close>



text \<open>
  C9. When the window size query fails, or reports fewer than 20 columns or fewer than
  10 rows, no frame is rendered; and the program exits with status 1 whenever it gets as
  far as the query, that is, when it was started without arguments (with an argument it
  has returned before the query).
\<close>

theorem main_rejects_small_display:
  assumes "ws = None \<or> (\<exists>col row. ws = Some (col, row) \<and> (col < 20 \<or> row < 10))"
  shows "snd (main rnd sinf cosf argv ws alloc_ok polls) = []
       \<and> (argv = [] \<longrightarrow> main rnd sinf cosf argv ws alloc_ok polls = (Exited 1, []))"
  using assms by (auto simp: main_def split: list.split)

theorem main_rejects_small_display_witness:
  "main id sin cos [] (Some (19, 24)) True [False, False] = (Exited 1, [])
   \<and> main id sin cos [] None True [False, False] = (Exited 1, [])
   \<and> snd (main id sin cos [''-h''] (Some (80, 9)) True [False, False]) = []"
  using main_rejects_small_display[of "Some (19, 24)" id sin cos "[]" True "[False, False]"]
    main_rejects_small_display[of None id sin cos "[]" True "[False, False]"]
    main_rejects_small_display[of "Some (80, 9)" id sin cos "[''-h'']" True "[False, False]"]
  by simp

end
